theory Spec2Isabelle
  imports Main
begin

section \<open>Data model of cell.c\<close>

text \<open>
  The program keeps a body (the grid) as a heap-allocated array of pointers to
  individually allocated cells. Cells are the only objects that the functions of
  cell.c mutate after construction, so the model keeps them in an explicit heap and
  lets a body hold addresses into it. Two bodies, or two slots of one body, may then
  point at the same cell, exactly as in the C program.

  Arithmetic on \<open>int\<close> and \<open>size_t\<close> is modelled on \<open>int\<close> and \<open>nat\<close> without
  wrap-around. Every index the loops form is bounded by \<open>cols * cols + rows\<close>, so the
  model is exact for every body whose dimensions keep that value within \<open>INT_MAX\<close>.
  A failing \<open>malloc\<close> ends the process (\<open>exit(EXIT_FAILURE)\<close>); allocation in the
  model always succeeds. Rendering (\<open>draw_cell\<close>, \<open>draw_generation\<close> and the calls
  into SDL) and deallocation (\<open>cell_destroy\<close>, \<open>body_destory\<close>) touch no state that
  the other functions read and are left out.
\<close>

text \<open>
  Undefined behaviour of the C program, made a value of the model.
\<close>

datatype fault =
    IndexOutOfRange   \<comment> \<open>\<open>cells[i]\<close> with \<open>i\<close> outside the allocated array\<close>
  | WildPointer       \<comment> \<open>dereference of a slot that \<open>body_init\<close> never assigned, or of a dangling address\<close>
  | NullString        \<comment> \<open>\<open>atoi(NULL)\<close>, or a write in front of an empty line buffer\<close>
  | BadConversion     \<comment> \<open>a negative \<open>atoi\<close> result cast to \<open>size_t\<close> and added to a \<open>double\<close>\<close>
  | DivisionByZero    \<comment> \<open>integer division by a cell size of 0\<close>

text \<open>
  Modelled from the spec: the header cell.h, which declares \<open>cell_t\<close> and \<open>body_t\<close>,
  is not among the sources. The spec gives a cell the one attribute \<open>alive: boolean\<close>
  (every assignment in cell.c stores 0, 1, a comparison or a negation); the \<open>rect\<close>
  member is geometry for the renderer and is left out. A body has \<open>rows\<close>, \<open>cols\<close> and
  the array \<open>cells\<close> of cell pointers.
\<close>

record cell_t =
  alive :: bool

type_synonym heap = "cell_t list"

record body_t =
  rows :: nat
  cols :: nat
  cells :: "nat option list"

text \<open>
  An address is an index into the heap. A slot of \<open>cells\<close> is \<open>None\<close> while it holds
  whatever \<open>malloc\<close> left there.
\<close>

subsection \<open>Sequencing and loops\<close>

text \<open>
  A \<open>for\<close> loop whose bounds do not change while it runs visits a fixed list of
  values; the first fault ends it.
\<close>

primrec for_each :: "'i list \<Rightarrow> ('i \<Rightarrow> 's \<Rightarrow> fault + 's) \<Rightarrow> 's \<Rightarrow> fault + 's" where
  "for_each [] f s = Inr s"
| "for_each (i # is) f s = (case f i s of Inl e \<Rightarrow> Inl e | Inr s' \<Rightarrow> for_each is f s')"

subsection \<open>Access to a cell through a body\<close>

text \<open>\<open>body->cells[i]\<close>: the pointer stored in slot \<open>i\<close>.\<close>

definition cell_ptr :: "body_t \<Rightarrow> nat \<Rightarrow> fault + nat" where
  "cell_ptr b i =
     (if i < length (cells b)
      then (case cells b ! i of None \<Rightarrow> Inl WildPointer | Some p \<Rightarrow> Inr p)
      else Inl IndexOutOfRange)"

text \<open>\<open>body->cells[i]->alive\<close> read.\<close>

definition get_alive :: "heap \<Rightarrow> body_t \<Rightarrow> nat \<Rightarrow> fault + bool" where
  "get_alive h b i =
     (case cell_ptr b i of
        Inl e \<Rightarrow> Inl e
      | Inr p \<Rightarrow> if p < length h then Inr (alive (h ! p)) else Inl WildPointer)"

text \<open>\<open>body->cells[i]->alive = v\<close>.\<close>

definition set_alive :: "heap \<Rightarrow> body_t \<Rightarrow> nat \<Rightarrow> bool \<Rightarrow> fault + heap" where
  "set_alive h b i v =
     (case cell_ptr b i of
        Inl e \<Rightarrow> Inl e
      | Inr p \<Rightarrow> if p < length h then Inr (h[p := (h ! p)\<lparr>alive := v\<rparr>]) else Inl WildPointer)"

subsection \<open>Construction\<close>

text \<open>\<open>cell_init\<close>: a fresh dead cell at a fresh address.\<close>

definition cell_init :: "heap \<Rightarrow> heap \<times> nat" where
  "cell_init h = (h @ [\<lparr>alive = False\<rparr>], length h)"

text \<open>
  \<open>body_init\<close>: the array has \<open>rows * cols\<close> slots; the loops assign slot
  \<open>x * cols + y\<close> for \<open>x < cols\<close>, \<open>y < rows\<close>. A slot past the array is a heap
  overflow.
\<close>

definition body_init_slot ::
  "nat \<Rightarrow> nat \<Rightarrow> nat \<Rightarrow> nat option list \<times> heap \<Rightarrow> fault + nat option list \<times> heap" where
  "body_init_slot ncols x y s =
     (case s of (arr, h) \<Rightarrow>
        if x * ncols + y < length arr
        then (case cell_init h of (h', p) \<Rightarrow> Inr (arr[x * ncols + y := Some p], h'))
        else Inl IndexOutOfRange)"

definition body_init :: "nat \<Rightarrow> nat \<Rightarrow> heap \<Rightarrow> fault + body_t \<times> heap" where
  "body_init nrows ncols h =
     (case for_each [0..<ncols] (\<lambda>x. for_each [0..<nrows] (body_init_slot ncols x))
             (replicate (nrows * ncols) None, h) of
        Inl e \<Rightarrow> Inl e
      | Inr (arr, h') \<Rightarrow> Inr (\<lparr>rows = nrows, cols = ncols, cells = arr\<rparr>, h'))"

section \<open>The generation engine\<close>

text \<open>
  Lines 324 to 332 of \<open>compute_generation\<close>: the accumulator starts at -1 for a live
  cell and 0 for a dead one, then the whole 3 by 3 block around \<open>(x, y)\<close> is added,
  skipping the positions outside the body. In the bounds test \<open>x + a\<close> is an \<open>int\<close>
  and is compared with the \<open>size_t\<close> value \<open>cols - 1\<close> only once \<open>x + a < 0\<close> has
  failed; inside the loops \<open>cols\<close> and \<open>rows\<close> are at least 1, so neither side wraps.
\<close>

definition in_body :: "body_t \<Rightarrow> nat \<Rightarrow> nat \<Rightarrow> int \<Rightarrow> int \<Rightarrow> bool" where
  "in_body b x y a c \<longleftrightarrow>
     \<not> (int x + a < 0 \<or> int x + a > int (cols b) - 1 \<or>
        int y + c < 0 \<or> int y + c > int (rows b) - 1)"

definition add_neighbor :: "heap \<Rightarrow> body_t \<Rightarrow> nat \<Rightarrow> nat \<Rightarrow> int \<Rightarrow> int \<Rightarrow> int \<Rightarrow> fault + int" where
  "add_neighbor h b x y a c n =
     (if in_body b x y a c
      then (case get_alive h b (nat (int x + a) * cols b + nat (int y + c)) of
              Inl e \<Rightarrow> Inl e
            | Inr v \<Rightarrow> Inr (n + of_bool v))
      else Inr n)"

definition neighbors :: "heap \<Rightarrow> body_t \<Rightarrow> nat \<Rightarrow> nat \<Rightarrow> fault + int" where
  "neighbors h b x y =
     (case get_alive h b (x * cols b + y) of
        Inl e \<Rightarrow> Inl e
      | Inr v \<Rightarrow>
          for_each [-1, 0, 1] (\<lambda>a. for_each [-1, 0, 1] (add_neighbor h b x y a))
            (if v then -1 else 0))"

text \<open>
  One pass of the inner loop body, lines 323 to 341. The index is formed with the
  columns of \<open>body_old\<close> for both bodies. The state is the heap and \<open>*pop\<close>.
\<close>

definition next_state :: "bool \<Rightarrow> int \<Rightarrow> bool" where
  "next_state v n =
     (if v \<and> (n < 2 \<or> n > 3) then False
      else if \<not> v \<and> n = 3 then True
      else v)"

definition generation_cell ::
  "body_t \<Rightarrow> body_t \<Rightarrow> nat \<Rightarrow> nat \<Rightarrow> heap \<times> int \<Rightarrow> fault + heap \<times> int" where
  "generation_cell body_new body_old x y s =
     (case s of (h, pop) \<Rightarrow>
        (case neighbors h body_old x y of
           Inl e \<Rightarrow> Inl e
         | Inr n \<Rightarrow>
             (case get_alive h body_old (x * cols body_old + y) of
                Inl e \<Rightarrow> Inl e
              | Inr v \<Rightarrow>
                  (case set_alive h body_new (x * cols body_old + y) (next_state v n) of
                     Inl e \<Rightarrow> Inl e
                   | Inr h' \<Rightarrow>
                       (case get_alive h' body_new (x * cols body_old + y) of
                          Inl e \<Rightarrow> Inl e
                        | Inr w \<Rightarrow> Inr (h', pop + of_bool w))))))"

text \<open>\<open>compute_generation\<close>: \<open>*pop = 0\<close>, then every \<open>x < cols\<close>, \<open>y < rows\<close> of \<open>body_old\<close>.\<close>

definition compute_generation :: "body_t \<Rightarrow> body_t \<Rightarrow> heap \<times> int \<Rightarrow> fault + heap \<times> int" where
  "compute_generation body_new body_old s =
     for_each [0..<cols body_old]
       (\<lambda>x. for_each [0..<rows body_old] (generation_cell body_new body_old x))
       (fst s, 0)"

section \<open>Reading a body by position\<close>

text \<open>
  The state of the cell at position \<open>(x, y)\<close>, which the program stores in slot
  \<open>x * cols + y\<close>; \<open>False\<close> where the program could not read it.
\<close>

definition alive_at :: "heap \<Rightarrow> body_t \<Rightarrow> nat \<Rightarrow> nat \<Rightarrow> bool" where
  "alive_at h b x y = (case get_alive h b (x * cols b + y) of Inl e \<Rightarrow> False | Inr v \<Rightarrow> v)"

text \<open>The slots the loops of cell.c visit, in their order.\<close>

definition slots :: "body_t \<Rightarrow> nat list" where
  "slots b = concat (map (\<lambda>x. map (\<lambda>y. x * cols b + y) [0..<rows b]) [0..<cols b])"

text \<open>The addresses of the cells of a body.\<close>

definition cell_ptrs :: "body_t \<Rightarrow> nat list" where
  "cell_ptrs b = concat (map (\<lambda>s. case s of None \<Rightarrow> [] | Some p \<Rightarrow> [p]) (cells b))"

text \<open>
  A body as \<open>body_init\<close> leaves it: the array has \<open>rows * cols\<close> slots, every slot the
  loops visit lies in the array and points at a cell of the heap, the other slots
  were never assigned, and no two slots share a cell.
\<close>

definition body_ok :: "heap \<Rightarrow> body_t \<Rightarrow> bool" where
  "body_ok h b \<longleftrightarrow>
     length (cells b) = rows b * cols b \<and>
     list_all (\<lambda>i. i < length (cells b) \<and>
                 (case cells b ! i of None \<Rightarrow> False | Some p \<Rightarrow> p < length h)) (slots b) \<and>
     list_all (\<lambda>i. i \<in> set (slots b) \<or> cells b ! i = None) [0..<length (cells b)] \<and>
     distinct (cell_ptrs b)"

text \<open>The number of live cells of a body: cells, not positions.\<close>

definition population :: "heap \<Rightarrow> body_t \<Rightarrow> nat" where
  "population h b = length (filter (\<lambda>p. p < length h \<and> alive (h ! p)) (cell_ptrs b))"

text \<open>
  The neighbour count as the spec words it: the live cells among the eight
  positions around \<open>(x, y)\<close> that lie in the body.
\<close>

definition around :: "(int \<times> int) list" where
  "around = [(-1, -1), (-1, 0), (-1, 1), (0, -1), (0, 1), (1, -1), (1, 0), (1, 1)]"

definition neighbor_count_direct :: "heap \<Rightarrow> body_t \<Rightarrow> nat \<Rightarrow> nat \<Rightarrow> int" where
  "neighbor_count_direct h b x y =
     int (length (filter
       (\<lambda>(a, c). 0 \<le> int x + a \<and> int x + a < int (cols b) \<and>
                 0 \<le> int y + c \<and> int y + c < int (rows b) \<and>
                 alive_at h b (nat (int x + a)) (nat (int y + c))) around))"

text \<open>What one position of the 3 by 3 block adds to the accumulator.\<close>

definition contribution :: "heap \<Rightarrow> body_t \<Rightarrow> nat \<Rightarrow> nat \<Rightarrow> int \<Rightarrow> int \<Rightarrow> int" where
  "contribution h b x y a c =
     (if in_body b x y a c
      then of_bool (alive_at h b (nat (int x + a)) (nat (int y + c))) else 0)"

definition all_alive :: "heap \<Rightarrow> body_t \<Rightarrow> bool" where
  "all_alive h b \<longleftrightarrow>
     list_all (\<lambda>x. list_all (\<lambda>y. alive_at h b x y) [0..<rows b]) [0..<cols b]"

definition on_edge :: "body_t \<Rightarrow> nat \<Rightarrow> nat \<Rightarrow> bool" where
  "on_edge b x y \<longleftrightarrow> x = 0 \<or> x = cols b - 1 \<or> y = 0 \<or> y = rows b - 1"

definition corner :: "body_t \<Rightarrow> nat \<Rightarrow> nat \<Rightarrow> bool" where
  "corner b x y \<longleftrightarrow> (x = 0 \<or> x = cols b - 1) \<and> (y = 0 \<or> y = rows b - 1)"

section \<open>Example bodies\<close>

text \<open>A body of \<open>n\<close> by \<open>n\<close> cells over the addresses \<open>k, k + 1, ...\<close>.\<close>

definition square_body :: "nat \<Rightarrow> nat \<Rightarrow> body_t" where
  "square_body n k = \<lparr>rows = n, cols = n, cells = map (\<lambda>i. Some (k + i)) [0..<n * n]\<rparr>"

definition heap_of :: "bool list \<Rightarrow> heap" where
  "heap_of vs = map (\<lambda>v. \<lparr>alive = v\<rparr>) vs"

section \<open>Vocabulary for the generation engine\<close>

text \<open>The address found in the slot of position \<open>(x, y)\<close>; 0 where there is none.\<close>

definition slot_ptr :: "body_t \<Rightarrow> nat \<Rightarrow> nat \<Rightarrow> nat" where
  "slot_ptr b x y = (case cell_ptr b (x * cols b + y) of Inl e \<Rightarrow> 0 | Inr p \<Rightarrow> p)"

text \<open>
  The rule of the spec at one position: the state of the cell and its direct
  neighbour count decide the next state.
\<close>

definition next_alive :: "heap \<Rightarrow> body_t \<Rightarrow> nat \<Rightarrow> nat \<Rightarrow> bool" where
  "next_alive h b x y = next_state (alive_at h b x y) (neighbor_count_direct h b x y)"

text \<open>The positions in the order of the two loops: \<open>x\<close> outside, \<open>y\<close> inside.\<close>

definition positions :: "body_t \<Rightarrow> (nat \<times> nat) list" where
  "positions b = concat (map (\<lambda>x. map (\<lambda>y. (x, y)) [0..<rows b]) [0..<cols b])"

text \<open>Two bodies that share no cell.\<close>

definition disjoint_bodies :: "body_t \<Rightarrow> body_t \<Rightarrow> bool" where
  "disjoint_bodies b c \<longleftrightarrow> list_all (\<lambda>p. p \<notin> set (cell_ptrs c)) (cell_ptrs b)"

text \<open>Two heaps that differ at most in the cells of \<open>b\<close>.\<close>

definition same_outside :: "body_t \<Rightarrow> heap \<Rightarrow> heap \<Rightarrow> bool" where
  "same_outside b g h \<longleftrightarrow>
     length g = length h \<and> (\<forall>p < length h. p \<notin> set (cell_ptrs b) \<longrightarrow> g ! p = h ! p)"

text \<open>
  The store one pass of the loop body performs, given the heap \<open>h\<close> the call
  started from.
\<close>

definition write_cell :: "heap \<Rightarrow> body_t \<Rightarrow> body_t \<Rightarrow> nat \<times> nat \<Rightarrow> heap \<Rightarrow> heap" where
  "write_cell h body_new body_old i g =
     g[slot_ptr body_new (fst i) (snd i) := \<lparr>alive = next_alive h body_old (fst i) (snd i)\<rparr>]"

text \<open>
  Two bodies of 3 rows and 2 columns, as two calls of \<open>body_init\<close> from the empty
  heap leave them: slot 2 serves both \<open>(0, 2)\<close> and \<open>(1, 0)\<close>, slot 5 is never
  assigned, and the cell at address 2 (8 for the second body) is lost.
\<close>

definition tall_old :: body_t where
  "tall_old = \<lparr>rows = 3, cols = 2, cells = [Some 0, Some 1, Some 3, Some 4, Some 5, None]\<rparr>"

definition tall_new :: body_t where
  "tall_new = \<lparr>rows = 3, cols = 2, cells = [Some 6, Some 7, Some 9, Some 10, Some 11, None]\<rparr>"

text \<open>The heap with the cells of \<open>tall_old\<close> in slots 1, 3 and 4 alive.\<close>

definition tall_heap :: heap where
  "tall_heap = heap_of [False, True, False, False, True, True,
                        False, False, False, False, False, False]"

section \<open>Seeding by drawing\<close>

text \<open>
  Modelled from the spec: \<open>cell_meta\<close> is declared in utilities.h, which is not among
  the sources. cell.c reads its members \<open>width\<close> and \<open>height\<close> (the size of a cell
  in pixels) and \<open>alive_prob\<close> (the percentage of the random strategy); the spec
  calls the latter an integer percentage. The members used only for rendering and
  for the name of the export file are left out.
\<close>

record cell_meta_t =
  width :: nat
  height :: nat
  alive_prob :: int

text \<open>
  Lines 263 to 266 of \<open>drawing_mode\<close>, for the cell coordinates \<open>x\<close> and \<open>y\<close>: the
  cell in slot \<open>x * cols + y\<close> is negated and \<open>*pop\<close> moves by \<open>2 * alive - 1\<close>. Both
  coordinates are \<open>int\<close>; a negative index is outside the array.
\<close>

definition toggle :: "body_t \<Rightarrow> int \<Rightarrow> int \<Rightarrow> heap \<times> int \<Rightarrow> fault + heap \<times> int" where
  "toggle b x y s =
     (case s of (h, pop) \<Rightarrow>
        if x * int (cols b) + y < 0 then Inl IndexOutOfRange
        else
          (case get_alive h b (nat (x * int (cols b) + y)) of
             Inl e \<Rightarrow> Inl e
           | Inr v \<Rightarrow>
               (case set_alive h b (nat (x * int (cols b) + y)) (\<not> v) of
                  Inl e \<Rightarrow> Inl e
                | Inr h' \<Rightarrow>
                    (case get_alive h' b (nat (x * int (cols b) + y)) of
                       Inl e \<Rightarrow> Inl e
                     | Inr w \<Rightarrow> Inr (h', pop + (2 * of_bool w - 1))))))"

text \<open>
  What \<open>SDL_PollEvent\<close> hands to the loop, as far as \<open>drawing_mode\<close> tells events
  apart. A press of the left button carries the pointer position that
  \<open>SDL_GetMouseState\<close> reports, in pixels from the corner of the window.
\<close>

datatype event =
    Quit
  | KeySpace
  | KeyQ
  | KeyOther
  | MouseLeft nat nat
  | MouseOther
  | OtherEvent

text \<open>
  Lines 259 to 266: the pixel position is divided by the size of a cell. A cell
  size of zero is a division by zero, reported as a fault.
\<close>

definition mouse_button_left ::
  "cell_meta_t \<Rightarrow> body_t \<Rightarrow> nat \<Rightarrow> nat \<Rightarrow> heap \<times> int \<Rightarrow> fault + heap \<times> int" where
  "mouse_button_left m b mx my s =
     (if width m = 0 \<or> height m = 0 then Inl DivisionByZero
      else toggle b (int (mx div width m)) (int (my div height m)) s)"

text \<open>
  The two nested \<open>while\<close> loops of \<open>drawing_mode\<close> over a script of poll results:
  \<open>Some e\<close> is an event, \<open>None\<close> an empty queue, which ends the inner loop and lets
  the outer one test \<open>capturing_input\<close>. A press of the space bar clears the flag
  but the inner loop first drains the queue. The result is \<open>None\<close> when the script
  ends while the function is still polling; otherwise the returned body pointer
  (\<open>None\<close> for \<open>NULL\<close>), the heap and \<open>*pop\<close>.
\<close>

fun drawing_loop ::
  "cell_meta_t \<Rightarrow> body_t \<Rightarrow> event option list \<Rightarrow> bool \<Rightarrow> heap \<times> int \<Rightarrow>
   (fault + body_t option \<times> heap \<times> int) option" where
  "drawing_loop m b [] capturing s = None"
| "drawing_loop m b (None # es) capturing s =
     (if capturing then drawing_loop m b es capturing s else Some (Inr (Some b, s)))"
| "drawing_loop m b (Some Quit # es) capturing s = Some (Inr (None, s))"
| "drawing_loop m b (Some KeySpace # es) capturing s = drawing_loop m b es False s"
| "drawing_loop m b (Some KeyQ # es) capturing s = Some (Inr (None, s))"
| "drawing_loop m b (Some (MouseLeft mx my) # es) capturing s =
     (case mouse_button_left m b mx my s of
        Inl e \<Rightarrow> Some (Inl e)
      | Inr s' \<Rightarrow> drawing_loop m b es capturing s')"
| "drawing_loop m b (Some e # es) capturing s = drawing_loop m b es capturing s"

definition drawing_mode ::
  "cell_meta_t \<Rightarrow> body_t \<Rightarrow> event option list \<Rightarrow> heap \<times> int \<Rightarrow>
   (fault + body_t option \<times> heap \<times> int) option" where
  "drawing_mode m b es s = drawing_loop m b es True s"

section \<open>Seeding at random\<close>

text \<open>
  One pass of the loop body of \<open>random_mode\<close>, lines 166 and 167. The values that
  \<open>rand()\<close> returns are an input: \<open>rnd k\<close> is the value of call number \<open>k\<close>, and the
  number of calls made so far travels with the heap and \<open>*pop\<close>.
\<close>

definition random_cell ::
  "cell_meta_t \<Rightarrow> (nat \<Rightarrow> nat) \<Rightarrow> body_t \<Rightarrow> nat \<Rightarrow> nat \<Rightarrow> heap \<times> int \<times> nat \<Rightarrow>
   fault + heap \<times> int \<times> nat" where
  "random_cell m rnd b x y s =
     (case s of (h, pop, k) \<Rightarrow>
        (case set_alive h b (x * cols b + y) (int (rnd k mod 100 + 1) \<le> alive_prob m) of
           Inl e \<Rightarrow> Inl e
         | Inr h' \<Rightarrow>
             (case get_alive h' b (x * cols b + y) of
                Inl e \<Rightarrow> Inl e
              | Inr v \<Rightarrow> Inr (h', pop + of_bool v, Suc k))))"

text \<open>
  \<open>random_mode\<close>. The bounds \<open>(size_t)(cols * 0.25)\<close> and \<open>(size_t)(cols * 0.75)\<close> are
  products with a power of two and with 3/4, exact in \<open>double\<close> for any dimension
  an array can have, then truncated: \<open>cols div 4\<close> and \<open>3 * cols div 4\<close>. The function
  returns its argument \<open>body\<close>, never \<open>NULL\<close>.
\<close>

definition random_mode ::
  "cell_meta_t \<Rightarrow> (nat \<Rightarrow> nat) \<Rightarrow> body_t \<Rightarrow> heap \<times> int \<Rightarrow> fault + body_t option \<times> heap \<times> int" where
  "random_mode m rnd b s =
     (case for_each [cols b div 4..<3 * cols b div 4]
             (\<lambda>x. for_each [rows b div 4..<3 * rows b div 4] (random_cell m rnd b x))
             (fst s, snd s, 0) of
        Inl e \<Rightarrow> Inl e
      | Inr (h', pop', k) \<Rightarrow> Inr (Some b, h', pop'))"

section \<open>Pattern files\<close>

subsection \<open>The C library on strings\<close>

text \<open>A buffer read as a C string ends at its first NUL byte.\<close>

definition c_string :: "string \<Rightarrow> string" where
  "c_string s = takeWhile (\<lambda>c. c \<noteq> CHR 0x00) s"

text \<open>
  \<open>getline\<close>: the next line of the stream with its newline, and the rest of the
  stream; \<open>None\<close> for the result -1 at the end of the stream.
\<close>

definition getline :: "string \<Rightarrow> (string \<times> string) option" where
  "getline s =
     (if s = [] then None
      else (case dropWhile (\<lambda>c. c \<noteq> CHR 0x0A) s of
              [] \<Rightarrow> Some (s, [])
            | c # r \<Rightarrow> Some (takeWhile (\<lambda>c. c \<noteq> CHR 0x0A) s @ [c], r)))"

text \<open>
  \<open>strtok\<close> with the delimiter set \<open>","\<close>: leading commas are skipped; \<open>None\<close> is the
  result \<open>NULL\<close> when nothing is left; otherwise the token and the text after the
  comma that ended it, where the next call with \<open>NULL\<close> resumes.
\<close>

definition strtok :: "string \<Rightarrow> (string \<times> string) option" where
  "strtok s =
     (case dropWhile (\<lambda>c. c = CHR '','') s of
        [] \<Rightarrow> None
      | c # r \<Rightarrow>
          Some (takeWhile (\<lambda>c. c \<noteq> CHR '','') (c # r),
                drop 1 (dropWhile (\<lambda>c. c \<noteq> CHR '','') (c # r))))"

definition isspace :: "char \<Rightarrow> bool" where
  "isspace c \<longleftrightarrow> c \<in> set [CHR 0x20, CHR 0x09, CHR 0x0A, CHR 0x0B, CHR 0x0C, CHR 0x0D]"

definition isdigit :: "char \<Rightarrow> bool" where
  "isdigit c \<longleftrightarrow> 48 \<le> (of_char c :: nat) \<and> (of_char c :: nat) \<le> 57"

definition digits_val :: "string \<Rightarrow> nat" where
  "digits_val ds = foldl (\<lambda>a c. 10 * a + ((of_char c :: nat) - 48)) 0 ds"

text \<open>
  \<open>atoi\<close>: white space, an optional sign, then the longest run of digits; 0 when
  there is none. A value outside \<open>int\<close> is undefined in C and is not cut off here.
\<close>

definition atoi :: "string \<Rightarrow> int" where
  "atoi s =
     (case dropWhile isspace s of
        [] \<Rightarrow> 0
      | c # r \<Rightarrow>
          if c = CHR ''-'' then - int (digits_val (takeWhile isdigit r))
          else if c = CHR ''+'' then int (digits_val (takeWhile isdigit r))
          else int (digits_val (takeWhile isdigit (c # r))))"

text \<open>\<open>printf\<close> with \<open>%d\<close>.\<close>

fun digits :: "nat \<Rightarrow> string" where
  "digits n =
     (if n < 10 then [char_of (48 + n)]
      else digits (n div 10) @ [char_of (48 + n mod 10)])"

declare digits.simps [simp del]

definition fmt_d :: "int \<Rightarrow> string" where
  "fmt_d i = (if i < 0 then CHR ''-'' # digits (nat (- i)) else digits (nat i))"

subsection \<open>Seeding from a pattern\<close>

text \<open>
  The body of the \<open>while\<close> loop of \<open>pattern_mode\<close>, lines 202 to 206, for one line
  as \<open>getline\<close> delivered it. The last character of the C string is cut off; were
  the string empty, the store would land in front of the buffer. Each \<open>strtok\<close>
  result goes to \<open>atoi\<close> unchecked. The value of \<open>atoi\<close> is cast to \<open>size_t\<close> and added
  to the \<open>double\<close> \<open>cols * 0.5\<close>; for a value that is not negative the sum is exact and
  truncates to \<open>dx + cols div 2\<close>. A negative value \<open>dx\<close> becomes \<open>SIZE_MAX + 1 - |dx|\<close>.
  With a 64-bit \<open>size_t\<close> and \<open>|dx|\<close> up to 1024, \<open>double\<close> rounds that to 2 to the power
  64, the sum is no smaller, and converting it back to \<open>size_t\<close> is undefined; for
  larger \<open>|dx|\<close> the outcome hangs on the rounding of \<open>double\<close>. The model does not
  follow the program on negative values: it stops with \<open>BadConversion\<close>.
\<close>

definition pattern_point :: "body_t \<Rightarrow> string \<Rightarrow> heap \<times> int \<Rightarrow> fault + heap \<times> int" where
  "pattern_point b line s =
     (case s of (h, pop) \<Rightarrow>
        if c_string line = [] then Inl NullString
        else
          (case strtok (butlast (c_string line)) of
             None \<Rightarrow> Inl NullString
           | Some (tok1, rest1) \<Rightarrow>
               if atoi tok1 < 0 then Inl BadConversion
               else
                 (case strtok rest1 of
                    None \<Rightarrow> Inl NullString
                  | Some (tok2, rest2) \<Rightarrow>
                      if atoi tok2 < 0 then Inl BadConversion
                      else
                        (case set_alive h b
                                ((nat (atoi tok1) + cols b div 2) * cols b +
                                 (nat (atoi tok2) + rows b div 2)) True of
                           Inl e \<Rightarrow> Inl e
                         | Inr h' \<Rightarrow> Inr (h', pop + 1)))))"

text \<open>The \<open>while\<close> loop: one pass for every line \<open>getline\<close> still finds.\<close>

function pattern_loop :: "body_t \<Rightarrow> string \<Rightarrow> heap \<times> int \<Rightarrow> fault + heap \<times> int" where
  "pattern_loop b inp s =
     (case getline inp of
        None \<Rightarrow> Inr s
      | Some (line, rest) \<Rightarrow>
          (case pattern_point b line s of
             Inl e \<Rightarrow> Inl e
           | Inr s' \<Rightarrow> pattern_loop b rest s'))"
  by pat_completeness auto
termination
proof (relation "measure (\<lambda>(b, inp, s). length inp)")
  show "wf (measure (\<lambda>(b, inp, s). length inp))" by simp
next
  fix b :: body_t and inp :: string and s :: "heap \<times> int"
    and x2 line rest and s' :: "heap \<times> int"
  assume "getline inp = Some x2" "(line, rest) = x2"
  then have g: "getline inp = Some (line, rest)" by simp
  have "length (dropWhile (\<lambda>c. c \<noteq> CHR 0x0A) inp) \<le> length inp"
    by (rule length_dropWhile_le)
  with g have "length rest < length inp"
    by (auto simp: getline_def split: if_splits list.splits)
  then show "((b, rest, s'), (b, inp, s)) \<in> measure (\<lambda>(b, inp, s). length inp)"
    by simp
qed

declare pattern_loop.simps [simp del]

text \<open>
  \<open>pattern_mode\<close>. The file the user chose is an input: \<open>None\<close> when \<open>fopen\<close> fails,
  in which case the function reports the error and returns \<open>NULL\<close>, else the
  content of the file. The first \<open>getline\<close> skips the header, whatever it finds.
\<close>

definition pattern_mode ::
  "string option \<Rightarrow> body_t \<Rightarrow> heap \<times> int \<Rightarrow> fault + body_t option \<times> heap \<times> int" where
  "pattern_mode file b s =
     (case file of
        None \<Rightarrow> Inr (None, s)
      | Some content \<Rightarrow>
          (case pattern_loop b (case getline content of None \<Rightarrow> [] | Some (header, rest) \<Rightarrow> rest) s of
             Inl e \<Rightarrow> Inl e
           | Inr s' \<Rightarrow> Inr (Some b, fst s', snd s')))"

subsection \<open>Export\<close>

text \<open>The line \<open>fprintf(export_fd, "%d,%d\n", x, y)\<close> writes.\<close>

definition export_line :: "nat \<Rightarrow> nat \<Rightarrow> string" where
  "export_line x y = fmt_d (int x) @ [CHR '',''] @ fmt_d (int y) @ [CHR 0x0A]"

definition export_cell :: "heap \<Rightarrow> body_t \<Rightarrow> nat \<Rightarrow> nat \<Rightarrow> string \<Rightarrow> fault + string" where
  "export_cell h b x y out =
     (case get_alive h b (x * cols b + y) of
        Inl e \<Rightarrow> Inl e
      | Inr v \<Rightarrow> Inr (if v then out @ export_line x y else out))"

text \<open>
  \<open>export_body\<close>, as far as the content of the file goes: \<open>None\<close> when the file
  cannot be opened for writing, else the header and one line for every live
  position, \<open>x\<close> outside and \<open>y\<close> inside. The name of the file and the messages are
  left out.
\<close>

definition export_body :: "bool \<Rightarrow> heap \<Rightarrow> body_t \<Rightarrow> fault + string option" where
  "export_body writable h b =
     (if \<not> writable then Inr None
      else
        (case for_each [0..<cols b] (\<lambda>x. for_each [0..<rows b] (export_cell h b x))
                (''x,y'' @ [CHR 0x0A]) of
           Inl e \<Rightarrow> Inl e
         | Inr out \<Rightarrow> Inr (Some out)))"

section \<open>The first generation\<close>

text \<open>
  What the three strategies take from outside the program: the configuration, the
  values of \<open>rand()\<close>, the pattern file and the script of poll results.
\<close>

record world =
  meta :: cell_meta_t
  rand_values :: "nat \<Rightarrow> nat"
  pattern_file :: "string option"
  polls :: "event option list"

text \<open>
  \<open>inital_generation\<close>: \<open>*pop = 0\<close>, then the strategy the global \<open>mode\<close> selects;
  \<open>NULL\<close> for any other mode. The outer \<open>None\<close> is \<open>drawing_mode\<close> still polling when
  the script ends.
\<close>

definition inital_generation ::
  "char \<Rightarrow> world \<Rightarrow> body_t \<Rightarrow> heap \<times> int \<Rightarrow> (fault + body_t option \<times> heap \<times> int) option" where
  "inital_generation mode w b s =
     (if mode = CHR ''r'' then Some (random_mode (meta w) (rand_values w) b (fst s, 0))
      else if mode = CHR ''p'' then Some (pattern_mode (pattern_file w) b (fst s, 0))
      else if mode = CHR ''d'' then drawing_mode (meta w) b (polls w) (fst s, 0)
      else Some (Inr (None, fst s, 0)))"

text \<open>
  A body of 4 rows and 2 columns as \<open>body_init\<close> leaves it from the empty heap:
  slots 2 and 3 serve two positions each.
\<close>

definition slim_body :: body_t where
  "slim_body =
     \<lparr>rows = 4, cols = 2,
      cells = [Some 0, Some 1, Some 4, Some 5, Some 6, Some 7, None, None]\<rparr>"

text \<open>A world for the examples: every cell drawn alive, no file, no events.\<close>

definition certain_world :: world where
  "certain_world =
     \<lparr>meta = \<lparr>width = 5, height = 5, alive_prob = 100\<rparr>,
      rand_values = (\<lambda>k. 41 * k + 7),
      pattern_file = None,
      polls = []\<rparr>"

section \<open>Vocabulary for export and import\<close>

text \<open>The live positions of a body, in the order \<open>export_body\<close> writes them.\<close>

definition alive_positions :: "heap \<Rightarrow> body_t \<Rightarrow> (nat \<times> nat) list" where
  "alive_positions h b = filter (\<lambda>i. alive_at h b (fst i) (snd i)) (positions b)"

text \<open>Where \<open>pattern_mode\<close> puts a line that holds the two numbers of \<open>i\<close>.\<close>

definition pattern_target :: "body_t \<Rightarrow> nat \<times> nat \<Rightarrow> nat \<times> nat" where
  "pattern_target b i = (fst i + cols b div 2, snd i + rows b div 2)"

definition place_cell :: "body_t \<Rightarrow> nat \<times> nat \<Rightarrow> heap \<Rightarrow> heap" where
  "place_cell b i g =
     g[slot_ptr b (fst (pattern_target b i)) (snd (pattern_target b i)) := \<lparr>alive = True\<rparr>]"

section \<open>Vocabulary for the random strategy\<close>

text \<open>The positions \<open>random_mode\<close> visits, in its order.\<close>

definition region :: "body_t \<Rightarrow> (nat \<times> nat) list" where
  "region b =
     concat (map (\<lambda>x. map (\<lambda>y. (x, y)) [rows b div 4..<3 * rows b div 4])
               [cols b div 4..<3 * cols b div 4])"

text \<open>Whether call number \<open>k\<close> of \<open>rand()\<close> makes a cell alive.\<close>

definition draw :: "cell_meta_t \<Rightarrow> (nat \<Rightarrow> nat) \<Rightarrow> nat \<Rightarrow> bool" where
  "draw m rnd k \<longleftrightarrow> int (rnd k mod 100 + 1) \<le> alive_prob m"

definition store_draw ::
  "cell_meta_t \<Rightarrow> (nat \<Rightarrow> nat) \<Rightarrow> body_t \<Rightarrow> (nat \<times> nat) \<times> nat \<Rightarrow> heap \<Rightarrow> heap" where
  "store_draw m rnd b ik g =
     g[slot_ptr b (fst (fst ik)) (snd (fst ik)) := \<lparr>alive = draw m rnd (snd ik)\<rparr>]"

section \<open>Vocabulary for the drawing strategy\<close>

text \<open>
  Cells have a size, and every press of the left button in the script lands on a
  position of the body.
\<close>

definition clicks_inside :: "cell_meta_t \<Rightarrow> body_t \<Rightarrow> event option list \<Rightarrow> bool" where
  "clicks_inside m b es \<longleftrightarrow>
     0 < width m \<and> 0 < height m \<and>
     list_all (\<lambda>e. case e of
                     Some (MouseLeft mx my) \<Rightarrow> mx div width m < cols b \<and> my div height m < rows b
                   | _ \<Rightarrow> True) es"

section \<open>Reading a well-formed body\<close>

lemma slot_in_slots: "x < cols b \<Longrightarrow> y < rows b \<Longrightarrow> x * cols b + y \<in> set (slots b)"
  by (auto simp: slots_def intro!: bexI [of _ x])

lemma body_ok_cell_ptr:
  assumes "body_ok h b" "x < cols b" "y < rows b"
  shows "\<exists>p. cell_ptr b (x * cols b + y) = Inr p \<and> p < length h"
proof -
  from assms(1) have "\<forall>i\<in>set (slots b). i < length (cells b) \<and>
      (case cells b ! i of None \<Rightarrow> False | Some p \<Rightarrow> p < length h)"
    unfolding body_ok_def list_all_iff by blast
  with slot_in_slots [OF assms(2,3)]
  have "x * cols b + y < length (cells b) \<and>
      (case cells b ! (x * cols b + y) of None \<Rightarrow> False | Some p \<Rightarrow> p < length h)"
    by blast
  then show ?thesis
    by (auto simp: cell_ptr_def split: option.splits)
qed

lemma body_ok_get_alive:
  assumes "body_ok h b" "x < cols b" "y < rows b"
  shows "get_alive h b (x * cols b + y) = Inr (alive_at h b x y)"
proof -
  from body_ok_cell_ptr [OF assms] obtain p where
    "cell_ptr b (x * cols b + y) = Inr p" "p < length h" by blast
  then show ?thesis by (simp add: get_alive_def alive_at_def)
qed

section \<open>The neighbour count\<close>

lemma add_neighbor_ok:
  assumes "body_ok h b"
  shows "add_neighbor h b x y a c n = Inr (n + contribution h b x y a c)"
proof (cases "in_body b x y a c")
  case True
  then have "nat (int x + a) < cols b" "nat (int y + c) < rows b"
    by (auto simp: in_body_def)
  from body_ok_get_alive [OF assms this] True show ?thesis
    by (simp add: add_neighbor_def contribution_def)
next
  case False
  then show ?thesis by (simp add: add_neighbor_def contribution_def)
qed

text \<open>
  The two loops over \<open>a\<close> and \<open>b\<close> add nine contributions; the one of the centre
  cancels the initial -1 of a live cell.
\<close>

lemma neighbors_sum:
  assumes "body_ok h b" "x < cols b" "y < rows b"
  shows "neighbors h b x y = Inr (sum_list (map (\<lambda>(a, c). contribution h b x y a c) around))"
proof -
  have centre: "contribution h b x y 0 0 = of_bool (alive_at h b x y)"
    using assms(2,3) by (simp add: contribution_def in_body_def)
  show ?thesis
    by (simp add: neighbors_def body_ok_get_alive [OF assms] add_neighbor_ok [OF assms(1)]
        around_def centre)
qed

lemma length_filter_sum: "int (length (filter P xs)) = sum_list (map (\<lambda>x. of_bool (P x)) xs)"
  by (induction xs) auto

lemma direct_sum:
  "neighbor_count_direct h b x y = sum_list (map (\<lambda>(a, c). contribution h b x y a c) around)"
proof -
  have "(\<lambda>(a, c). of_bool (0 \<le> int x + a \<and> int x + a < int (cols b) \<and>
                 0 \<le> int y + c \<and> int y + c < int (rows b) \<and>
                 alive_at h b (nat (int x + a)) (nat (int y + c)))) =
        (\<lambda>(a, c). contribution h b x y a c)"
    by (auto simp: fun_eq_iff contribution_def in_body_def)
  then show ?thesis
    unfolding neighbor_count_direct_def length_filter_sum
    by (simp add: case_prod_unfold)
qed

text \<open>
  Claim C10. For a well-formed body and a position \<open>(x, y)\<close> inside it, the value the
  generation engine accumulates (-1 or 0 to start, then the live cells of the whole
  3 by 3 block that lie in the body, the centre included) is the number of live
  cells among the eight surrounding positions that lie in the body. In particular
  the count is produced: the engine does not fault.
\<close>

theorem neighbors_refines_direct_count:
  assumes "body_ok h b" "x < cols b" "y < rows b"
  shows "neighbors h b x y = Inr (neighbor_count_direct h b x y)"
  by (simp add: neighbors_sum [OF assms] direct_sum)

lemma square_body_3_ok: "body_ok (heap_of (replicate 9 True)) (square_body 3 0)"
  by code_simp

theorem neighbors_refines_direct_count_witness:
  "body_ok (heap_of (replicate 9 True)) (square_body 3 0) \<and>
   (1::nat) < cols (square_body 3 0) \<and> (0::nat) < rows (square_body 3 0) \<and>
   neighbors (heap_of (replicate 9 True)) (square_body 3 0) 1 0 =
     Inr (neighbor_count_direct (heap_of (replicate 9 True)) (square_body 3 0) 1 0)"
proof -
  have c: "(1::nat) < cols (square_body 3 0)" and r: "(0::nat) < rows (square_body 3 0)"
    by (simp_all add: square_body_def)
  from neighbors_refines_direct_count [OF square_body_3_ok c r] square_body_3_ok c r
  show ?thesis by simp
qed

lemma contribution_all_alive:
  assumes "all_alive h b"
  shows "contribution h b x y a c = of_bool (in_body b x y a c)"
proof (cases "in_body b x y a c")
  case True
  then have "nat (int x + a) < cols b" "nat (int y + c) < rows b"
    by (auto simp: in_body_def)
  with assms have "alive_at h b (nat (int x + a)) (nat (int y + c))"
    by (simp add: all_alive_def list_all_iff)
  with True show ?thesis by (simp add: contribution_def)
next
  case False
  then show ?thesis by (simp add: contribution_def)
qed

lemma neighbors_all_alive:
  assumes "body_ok h b" "all_alive h b" "x < cols b" "y < rows b"
  shows "neighbors h b x y = Inr (sum_list (map (\<lambda>(a, c). of_bool (in_body b x y a c)) around))"
  by (simp add: neighbors_sum [OF assms(1,3,4)] contribution_all_alive [OF assms(2)])

text \<open>
  Claim C4, as stated, fails on the body of one cell: its corner \<open>(0, 0)\<close> has no
  position around it inside the body, and the engine counts 0 neighbours.
\<close>

theorem corner_count_counterexample:
  "body_ok (heap_of [True]) (square_body 1 0) \<and> all_alive (heap_of [True]) (square_body 1 0) \<and>
   neighbors (heap_of [True]) (square_body 1 0) 0 0 = Inr 0 \<and>
   neighbors (heap_of [True]) (square_body 1 0) 0 0 \<noteq> Inr 3"
  by (simp add: body_ok_def slots_def cell_ptrs_def square_body_def heap_of_def all_alive_def
      alive_at_def neighbors_def get_alive_def cell_ptr_def add_neighbor_def in_body_def)

text \<open>
  Claim C4, amended. In a well-formed body with at least two rows and two columns
  and every cell alive, the engine counts exactly 3 neighbours for the corner
  \<open>(0, 0)\<close> and exactly 5 for every position on the edge that is not a corner.
\<close>

theorem all_alive_corner_and_edge:
  assumes "body_ok h b" "all_alive h b" "2 \<le> rows b" "2 \<le> cols b"
  shows "neighbors h b 0 0 = Inr 3 \<and>
         (\<forall>x y. x < cols b \<and> y < rows b \<and> on_edge b x y \<and> \<not> corner b x y
                \<longrightarrow> neighbors h b x y = Inr 5)"
proof (intro conjI allI impI)
  have "0 < cols b" "0 < rows b" using assms(3,4) by simp_all
  from neighbors_all_alive [OF assms(1,2) this] assms(3,4)
  show "neighbors h b 0 0 = Inr 3"
    by (simp add: around_def in_body_def)
next
  fix x y
  assume *: "x < cols b \<and> y < rows b \<and> on_edge b x y \<and> \<not> corner b x y"
  then have "x < cols b" "y < rows b" by simp_all
  from neighbors_all_alive [OF assms(1,2) this] * assms(3,4)
  show "neighbors h b x y = Inr 5"
    by (auto simp: around_def in_body_def on_edge_def corner_def)
qed

theorem all_alive_corner_and_edge_witness:
  "body_ok (heap_of (replicate 9 True)) (square_body 3 0) \<and>
   all_alive (heap_of (replicate 9 True)) (square_body 3 0) \<and>
   2 \<le> rows (square_body 3 0) \<and> 2 \<le> cols (square_body 3 0) \<and>
   on_edge (square_body 3 0) 0 1 \<and> \<not> corner (square_body 3 0) 0 1 \<and>
   neighbors (heap_of (replicate 9 True)) (square_body 3 0) 0 0 = Inr 3 \<and>
   neighbors (heap_of (replicate 9 True)) (square_body 3 0) 0 1 = Inr 5"
proof -
  have a: "all_alive (heap_of (replicate 9 True)) (square_body 3 0)"
    by code_simp
  have r: "2 \<le> rows (square_body 3 0)" and c: "2 \<le> cols (square_body 3 0)"
    by (simp_all add: square_body_def)
  have e: "0 < cols (square_body 3 0) \<and> 1 < rows (square_body 3 0) \<and>
           on_edge (square_body 3 0) 0 1 \<and> \<not> corner (square_body 3 0) 0 1"
    by (simp add: square_body_def on_edge_def corner_def)
  from all_alive_corner_and_edge [OF square_body_3_ok a r c] square_body_3_ok a r c e
  show ?thesis by blast
qed

section \<open>Loops\<close>

lemma for_each_append:
  "for_each (xs @ ys) f s = (case for_each xs f s of Inl e \<Rightarrow> Inl e | Inr s' \<Rightarrow> for_each ys f s')"
  by (induction xs arbitrary: s) (auto split: sum.splits)

lemma for_each_map: "for_each (map g xs) f s = for_each xs (\<lambda>i. f (g i)) s"
  by (induction xs arbitrary: s) (auto split: sum.splits)

lemma for_each_nested:
  "for_each xs (\<lambda>x. for_each (ys x) (f x)) s =
   for_each (concat (map (\<lambda>x. map (\<lambda>y. (x, y)) (ys x)) xs)) (\<lambda>(x, y). f x y) s"
  by (induction xs arbitrary: s) (auto simp: for_each_append for_each_map split: sum.splits)

section \<open>One generation\<close>

lemma positions_iff: "(x, y) \<in> set (positions b) \<longleftrightarrow> x < cols b \<and> y < rows b"
  by (auto simp: positions_def image_iff)

lemma cell_ptr_mem:
  "cell_ptr b i = Inr p \<Longrightarrow> p \<in> set (cell_ptrs b)"
  by (auto simp: cell_ptr_def cell_ptrs_def split: if_splits option.splits
      intro!: bexI [of _ "Some p"] dest: nth_mem)

lemma get_alive_same:
  assumes "same_outside n g h" "disjoint_bodies n b"
  shows "get_alive g b i = get_alive h b i"
proof (cases "cell_ptr b i")
  case (Inl e)
  then show ?thesis by (simp add: get_alive_def)
next
  case (Inr p)
  from cell_ptr_mem [OF this] assms(2) have "p \<notin> set (cell_ptrs n)"
    by (auto simp: disjoint_bodies_def list_all_iff)
  with assms(1) Inr show ?thesis
    by (auto simp: get_alive_def same_outside_def)
qed

lemma neighbors_same:
  assumes "same_outside n g h" "disjoint_bodies n b"
  shows "neighbors g b x y = neighbors h b x y"
proof -
  note ga = get_alive_same [OF assms]
  have *: "add_neighbor g b x y a k = add_neighbor h b x y a k" for a k
    unfolding add_neighbor_def ga ..
  then have **: "add_neighbor g b x y a = add_neighbor h b x y a" for a
    by (rule ext)
  show ?thesis
    unfolding neighbors_def ga ** ..
qed

lemma cell_update: "(c :: cell_t)\<lparr>alive := v\<rparr> = \<lparr>alive = v\<rparr>"
  by (cases c) simp

lemma generation_cell_closed:
  assumes ok: "body_ok h body_new" "body_ok h body_old"
    and dims: "rows body_new = rows body_old" "cols body_new = cols body_old"
    and dis: "disjoint_bodies body_new body_old"
    and xy: "x < cols body_old" "y < rows body_old"
    and g: "same_outside body_new g h"
  shows "generation_cell body_new body_old x y (g, pop) =
         Inr (g[slot_ptr body_new x y := \<lparr>alive = next_alive h body_old x y\<rparr>],
              pop + of_bool (next_alive h body_old x y))"
proof -
  have n: "neighbors g body_old x y = Inr (neighbor_count_direct h body_old x y)"
    using neighbors_same [OF g dis] neighbors_sum [OF ok(2) xy] direct_sum by simp
  have a: "get_alive g body_old (x * cols body_old + y) = Inr (alive_at h body_old x y)"
    using get_alive_same [OF g dis] body_ok_get_alive [OF ok(2) xy] by simp
  from xy dims have xy': "x < cols body_new" "y < rows body_new" by simp_all
  from body_ok_cell_ptr [OF ok(1) xy'] dims obtain p where
    p: "cell_ptr body_new (x * cols body_old + y) = Inr p" "p < length h" by auto
  then have sp: "slot_ptr body_new x y = p" by (simp add: slot_ptr_def dims)
  from g have len: "length g = length h" by (simp add: same_outside_def)
  have w: "set_alive g body_new (x * cols body_old + y) v =
           Inr (g[p := \<lparr>alive = v\<rparr>])" for v
    using p len by (simp add: set_alive_def cell_update)
  have r: "get_alive (g[p := \<lparr>alive = v\<rparr>]) body_new (x * cols body_old + y) = Inr v" for v
    using p len by (simp add: get_alive_def)
  show ?thesis
    by (simp add: generation_cell_def n a w r sp next_alive_def)
qed

lemma slot_ptr_mem:
  assumes "body_ok h b" "x < cols b" "y < rows b"
  shows "slot_ptr b x y \<in> set (cell_ptrs b)"
proof -
  from body_ok_cell_ptr [OF assms] obtain p where
    p: "cell_ptr b (x * cols b + y) = Inr p" by blast
  from cell_ptr_mem [OF p] p show ?thesis by (simp add: slot_ptr_def)
qed

lemma same_outside_write:
  assumes "same_outside b g h" "q \<in> set (cell_ptrs b)"
  shows "same_outside b (g[q := c]) h"
proof -
  from assms(2) have "g[q := c] ! p = g ! p" if "p \<notin> set (cell_ptrs b)" for p
    using that by (cases "q = p") simp_all
  with assms(1) show ?thesis by (simp add: same_outside_def)
qed

lemma generation_loop:
  assumes ok: "body_ok h body_new" "body_ok h body_old"
    and dims: "rows body_new = rows body_old" "cols body_new = cols body_old"
    and dis: "disjoint_bodies body_new body_old"
    and ps: "\<forall>i\<in>set ps. fst i < cols body_old \<and> snd i < rows body_old"
    and g: "same_outside body_new g h"
  shows "for_each ps (\<lambda>(x, y). generation_cell body_new body_old x y) (g, pop) =
         Inr (fold (write_cell h body_new body_old) ps g,
              pop + sum_list (map (\<lambda>i. of_bool (next_alive h body_old (fst i) (snd i))) ps))"
  using ps g
proof (induction ps arbitrary: g pop)
  case Nil
  then show ?case by simp
next
  case (Cons i ps)
  obtain x y where i: "i = (x, y)" by (cases i)
  from Cons.prems(1) i have xy: "x < cols body_old" "y < rows body_old" by simp_all
  from xy dims have xy': "x < cols body_new" "y < rows body_new" by simp_all
  have step: "generation_cell body_new body_old x y (g, pop) =
      Inr (write_cell h body_new body_old i g, pop + of_bool (next_alive h body_old x y))"
    using generation_cell_closed [OF ok dims dis xy Cons.prems(2)]
    by (simp add: write_cell_def i)
  have g': "same_outside body_new (write_cell h body_new body_old i g) h"
    unfolding write_cell_def i fst_conv snd_conv
    by (rule same_outside_write [OF Cons.prems(2) slot_ptr_mem [OF ok(1) xy']])
  from Cons.prems(1) have "\<forall>i\<in>set ps. fst i < cols body_old \<and> snd i < rows body_old"
    by simp
  from Cons.IH [OF this g'] step show ?case
    by (simp add: i)
qed

lemma compute_generation_closed:
  assumes ok: "body_ok h body_new" "body_ok h body_old"
    and dims: "rows body_new = rows body_old" "cols body_new = cols body_old"
    and dis: "disjoint_bodies body_new body_old"
    and g: "same_outside body_new g h"
  shows "compute_generation body_new body_old (g, q) =
         Inr (fold (write_cell h body_new body_old) (positions body_old) g,
              sum_list (map (\<lambda>i. of_bool (next_alive h body_old (fst i) (snd i)))
                 (positions body_old)))"
proof -
  have ps: "\<forall>i\<in>set (positions body_old). fst i < cols body_old \<and> snd i < rows body_old"
    using positions_iff by auto
  have "compute_generation body_new body_old (g, q) =
        for_each (positions body_old) (\<lambda>(x, y). generation_cell body_new body_old x y) (g, 0)"
    by (simp add: compute_generation_def positions_def for_each_nested)
  with generation_loop [OF ok dims dis ps g, of 0] show ?thesis by simp
qed

lemma fold_write_length: "length (fold (write_cell h n b) ps g) = length g"
  by (induction ps arbitrary: g) (simp_all add: write_cell_def)

lemma fold_write_outside:
  assumes "\<forall>i\<in>set ps. slot_ptr n (fst i) (snd i) \<noteq> p"
  shows "fold (write_cell h n b) ps g ! p = g ! p"
  using assms by (induction ps arbitrary: g) (simp_all add: write_cell_def)

lemma fold_write_agree:
  assumes "length g = length g'" "p < length g"
    and "(\<exists>i\<in>set ps. slot_ptr n (fst i) (snd i) = p) \<or> g ! p = g' ! p"
  shows "fold (write_cell h n b) ps g ! p = fold (write_cell h n b) ps g' ! p"
  using assms
proof (induction ps arbitrary: g g')
  case Nil
  then show ?case by simp
next
  case (Cons i ps)
  let ?w = "write_cell h n b i"
  have len: "length (?w g) = length (?w g')" "p < length (?w g)"
    using Cons.prems(1,2) by (simp_all add: write_cell_def)
  have "(\<exists>i\<in>set ps. slot_ptr n (fst i) (snd i) = p) \<or> ?w g ! p = ?w g' ! p"
    using Cons.prems by (cases "slot_ptr n (fst i) (snd i) = p") (auto simp: write_cell_def)
  from Cons.IH [OF len this] show ?case by simp
qed

lemma cell_ptrs_written:
  assumes "body_ok h b" "p \<in> set (cell_ptrs b)"
  shows "\<exists>i\<in>set (positions b). slot_ptr b (fst i) (snd i) = p"
proof -
  from assms(2) obtain k where k: "k < length (cells b)" "cells b ! k = Some p"
    by (auto simp: cell_ptrs_def in_set_conv_nth split: option.splits)
  from assms(1) k have "k \<in> set (slots b)"
    by (auto simp: body_ok_def list_all_iff)
  then obtain x where x: "x < cols b" "x * cols b \<le> k" "k < rows b + x * cols b"
    by (auto simp: slots_def)
  define y where "y = k - x * cols b"
  with x have "x < cols b" "y < rows b" "k = x * cols b + y" by simp_all
  with k have "(x, y) \<in> set (positions b)" "slot_ptr b x y = p"
    by (simp_all add: positions_iff slot_ptr_def cell_ptr_def)
  then show ?thesis by force
qed

lemma same_outside_refl: "same_outside b h h"
  by (simp add: same_outside_def)

text \<open>
  Claim C5. For two well-formed bodies of the same dimensions that share no cell,
  \<open>compute_generation\<close> returns, leaves every cell that is not a cell of \<open>body_new\<close>
  as it was (so every live state of \<open>body_old\<close> reads as before), and gives every
  cell of \<open>body_new\<close> a state: started from any heap that differs from \<open>h\<close> only in
  the cells of \<open>body_new\<close>, and from any value of \<open>*pop\<close>, the call ends in the same
  heap and the same count, so nothing of what \<open>body_new\<close> held before survives.
\<close>

theorem compute_generation_frame:
  assumes ok: "body_ok h body_new" "body_ok h body_old"
    and dims: "rows body_new = rows body_old" "cols body_new = cols body_old"
    and dis: "disjoint_bodies body_new body_old"
  shows "\<exists>h' pop. compute_generation body_new body_old (h, q) = Inr (h', pop) \<and>
           length h' = length h \<and>
           (\<forall>p. p \<notin> set (cell_ptrs body_new) \<longrightarrow> h' ! p = h ! p) \<and>
           (\<forall>x y. alive_at h' body_old x y = alive_at h body_old x y) \<and>
           (\<forall>g r. same_outside body_new g h \<longrightarrow>
                  compute_generation body_new body_old (g, r) = Inr (h', pop))"
proof -
  let ?ps = "positions body_old"
  let ?w = "write_cell h body_new body_old"
  let ?pop = "sum_list (map (\<lambda>i. of_bool (next_alive h body_old (fst i) (snd i))) ?ps)"
  have ps: "positions body_new = ?ps" by (simp add: positions_def dims)
  have run: "compute_generation body_new body_old (g, r) = Inr (fold ?w ?ps g, ?pop)"
    if "same_outside body_new g h" for g r
    by (rule compute_generation_closed [OF ok dims dis that])
  have len: "length (fold ?w ?ps h) = length h" by (rule fold_write_length)
  have frame: "fold ?w ?ps h ! p = h ! p" if "p \<notin> set (cell_ptrs body_new)" for p
  proof (rule fold_write_outside, rule ballI)
    fix i assume "i \<in> set ?ps"
    then have "fst i < cols body_new" "snd i < rows body_new"
      using positions_iff [of "fst i" "snd i" body_old] dims by simp_all
    from slot_ptr_mem [OF ok(1) this] that
    show "slot_ptr body_new (fst i) (snd i) \<noteq> p" by auto
  qed
  have so: "same_outside body_new (fold ?w ?ps h) h"
    using len frame by (simp add: same_outside_def)
  have prev: "alive_at (fold ?w ?ps h) body_old x y = alive_at h body_old x y" for x y
    by (simp add: alive_at_def get_alive_same [OF so dis])
  have over: "fold ?w ?ps g = fold ?w ?ps h" if g: "same_outside body_new g h" for g
  proof (rule nth_equalityI)
    show "length (fold ?w ?ps g) = length (fold ?w ?ps h)"
      using g by (simp add: fold_write_length same_outside_def)
  next
    fix p assume "p < length (fold ?w ?ps g)"
    then have p: "p < length g" by (simp add: fold_write_length)
    from g have lg: "length g = length h" by (simp add: same_outside_def)
    have "(\<exists>i\<in>set ?ps. slot_ptr body_new (fst i) (snd i) = p) \<or> g ! p = h ! p"
    proof (cases "p \<in> set (cell_ptrs body_new)")
      case True
      from cell_ptrs_written [OF ok(1) this] ps show ?thesis by simp
    next
      case False
      with g p lg show ?thesis by (simp add: same_outside_def)
    qed
    from fold_write_agree [OF lg p this]
    show "fold ?w ?ps g ! p = fold ?w ?ps h ! p" .
  qed
  from run [OF same_outside_refl] len frame prev run over show ?thesis
    by (intro exI [of _ "fold ?w ?ps h"] exI [of _ ?pop]) simp
qed

section \<open>A body of 3 rows and 2 columns\<close>

text \<open>
  \<open>body_init\<close> accepts 3 rows and 2 columns; called twice from the empty heap it
  produces \<open>tall_old\<close> and \<open>tall_new\<close>.
\<close>

lemma tall_bodies_from_body_init:
  "body_init 3 2 [] = Inr (tall_old, heap_of (replicate 6 False))"
  "body_init 3 2 (heap_of (replicate 6 False)) = Inr (tall_new, heap_of (replicate 12 False))"
  by code_simp+

lemma tall_bodies_ok:
  "body_ok tall_heap tall_new" "body_ok tall_heap tall_old" "disjoint_bodies tall_new tall_old"
  by code_simp+

lemma tall_dims: "rows tall_new = rows tall_old" "cols tall_new = cols tall_old"
  by (simp_all add: tall_new_def tall_old_def)

lemma tall_same_outside:
  "same_outside tall_new
     (heap_of [False, True, False, False, True, True, True, True, False, True, True, True])
     tall_heap"
  by (simp add: same_outside_def tall_heap_def heap_of_def tall_new_def cell_ptrs_def
       nth_Cons' less_Suc_eq numeral_eq_Suc)

theorem compute_generation_frame_witness:
  "body_ok tall_heap tall_new \<and> body_ok tall_heap tall_old \<and>
   rows tall_new = rows tall_old \<and> cols tall_new = cols tall_old \<and>
   disjoint_bodies tall_new tall_old \<and>
   same_outside tall_new
     (heap_of [False, True, False, False, True, True, True, True, False, True, True, True])
     tall_heap \<and>
   compute_generation tall_new tall_old
     (heap_of [False, True, False, False, True, True, True, True, False, True, True, True], 9) =
   compute_generation tall_new tall_old (tall_heap, 0) \<and>
   (\<exists>h' pop. compute_generation tall_new tall_old (tall_heap, 0) = Inr (h', pop) \<and>
      length h' = length tall_heap \<and> h' ! 4 = tall_heap ! 4 \<and>
      alive_at h' tall_old 1 1 = alive_at tall_heap tall_old 1 1)"
proof -
  from compute_generation_frame [OF tall_bodies_ok(1,2) tall_dims tall_bodies_ok(3), of 0]
  obtain h' pop where
    run: "compute_generation tall_new tall_old (tall_heap, 0) = Inr (h', pop)"
    and len: "length h' = length tall_heap"
    and frame: "\<forall>p. p \<notin> set (cell_ptrs tall_new) \<longrightarrow> h' ! p = tall_heap ! p"
    and prev: "\<forall>x y. alive_at h' tall_old x y = alive_at tall_heap tall_old x y"
    and over: "\<forall>g r. same_outside tall_new g tall_heap \<longrightarrow>
                 compute_generation tall_new tall_old (g, r) = Inr (h', pop)"
    by blast
  have "4 \<notin> set (cell_ptrs tall_new)" by (simp add: cell_ptrs_def tall_new_def)
  with frame have "h' ! 4 = tall_heap ! 4" by blast
  with run len prev over tall_same_outside tall_bodies_ok tall_dims show ?thesis by simp
qed

text \<open>
  Claim C1 at the bodies of 3 rows and 2 columns. Position \<open>(0, 2)\<close> of \<open>tall_old\<close> is
  dead and has three live neighbours, so the rule makes it alive. The engine
  stores that in slot \<open>0 * 2 + 2\<close> and, one column later, stores the state of
  position \<open>(1, 0)\<close> in the same slot \<open>1 * 2 + 0\<close>: after the call the cell at
  \<open>(0, 2)\<close> of \<open>tall_new\<close> is dead.
\<close>

theorem generation_rule_tall_body:
  "next_alive tall_heap tall_old 0 2 \<and> \<not> next_alive tall_heap tall_old 1 0 \<and>
   compute_generation tall_new tall_old (tall_heap, 0) =
     Inr (heap_of [False, True, False, False, True, True,
                   False, True, False, False, True, True], 4) \<and>
   \<not> alive_at (heap_of [False, True, False, False, True, True,
                        False, True, False, False, True, True]) tall_new 0 2"
  by code_simp

text \<open>
  Claim C2 at the same bodies. The count handed back is 4, one for each of the six
  passes that stored a live state; the body it describes has 3 live cells, at 3
  positions.
\<close>

theorem generation_population_tall_body:
  "compute_generation tall_new tall_old (tall_heap, 0) =
     Inr (heap_of [False, True, False, False, True, True,
                   False, True, False, False, True, True], 4) \<and>
   population (heap_of [False, True, False, False, True, True,
                        False, True, False, False, True, True]) tall_new = 3 \<and>
   length (filter (\<lambda>i. alive_at (heap_of [False, True, False, False, True, True,
                        False, True, False, False, True, True]) tall_new (fst i) (snd i))
             (positions tall_new)) = 3"
  by code_simp

section \<open>Square bodies\<close>

text \<open>
  With as many rows as columns the slots \<open>x * cols + y\<close> are the numbers below
  \<open>cols * cols\<close>, each once and in the order of the loops, so positions and cells
  correspond one to one.
\<close>

lemma slots_positions: "slots b = map (\<lambda>i. fst i * cols b + snd i) (positions b)"
  by (simp add: slots_def positions_def map_concat comp_def)

lemma square_slots_upto:
  "concat (map (\<lambda>x. map (\<lambda>y. x * n + y) [0..<n]) [0..<m]) = [0..<m * n]"
proof (induction m)
  case 0
  then show ?case by simp
next
  case (Suc m)
  have "map (\<lambda>y. k + y) [0..<j] = [k..<k + j]" for k j :: nat
    by (induction j) simp_all
  then have 1: "map (\<lambda>y. m * n + y) [0..<n] = [m * n..<m * n + n]" .
  have 2: "[0..<m * n + n] = [0..<m * n] @ [m * n..<m * n + n]"
    by (rule upt_add_eq_append) simp
  have 3: "Suc m * n = m * n + n" by simp
  show ?case unfolding 3 2 using Suc 1 by simp
qed

lemma square_slots: "rows b = cols b \<Longrightarrow> slots b = [0..<cols b * cols b]"
  by (simp add: slots_def square_slots_upto)

lemma cell_ptrs_nth_inj:
  assumes "distinct (concat (map (\<lambda>s. case s of None \<Rightarrow> [] | Some p \<Rightarrow> [p]) xs))"
    "i < length xs" "j < length xs" "xs ! i = Some p" "xs ! j = Some p"
  shows "i = j"
  using assms
proof (induction xs arbitrary: i j)
  case Nil
  then show ?case by simp
next
  case (Cons s xs)
  have mem: "p \<in> set (concat (map (\<lambda>s. case s of None \<Rightarrow> [] | Some p \<Rightarrow> [p]) xs))"
    if "k < length xs" "xs ! k = Some p" for k
    using that by (auto intro!: bexI [of _ "Some p"] dest: nth_mem)
  show ?case
  proof (cases i)
    case 0
    show ?thesis
    proof (cases j)
      case 0
      with \<open>i = 0\<close> show ?thesis by simp
    next
      case (Suc j')
      with Cons.prems 0 mem [of j'] show ?thesis by auto
    qed
  next
    case (Suc i')
    show ?thesis
    proof (cases j)
      case 0
      with Cons.prems Suc mem [of i'] show ?thesis by auto
    next
      case (Suc j')
      with Cons.prems \<open>i = Suc i'\<close> Cons.IH [of i' j'] show ?thesis
        by (auto split: option.splits)
    qed
  qed
qed

lemma square_index_inj:
  assumes "(x::nat) * n + y = x' * n + y'" "y < n" "y' < n"
  shows "x = x' \<and> y = y'"
proof -
  from assms have n: "0 < n" by simp
  have "x = (x * n + y) div n" using n assms(2) by simp
  also have "\<dots> = (x' * n + y') div n" by (simp only: assms(1))
  also have "\<dots> = x'" using n assms(3) by simp
  finally have "x = x'" .
  with assms(1) show ?thesis by simp
qed

lemma square_slot_ptr_inj:
  assumes ok: "body_ok h b" and sq: "rows b = cols b"
    and xy: "x < cols b" "y < rows b" and xy': "x' < cols b" "y' < rows b"
    and eq: "slot_ptr b x y = slot_ptr b x' y'"
  shows "x = x' \<and> y = y'"
proof -
  from body_ok_cell_ptr [OF ok xy] obtain p where
    p: "cell_ptr b (x * cols b + y) = Inr p" by blast
  from body_ok_cell_ptr [OF ok xy'] obtain p' where
    p': "cell_ptr b (x' * cols b + y') = Inr p'" by blast
  from p p' eq have "p' = p" by (simp add: slot_ptr_def)
  with p p' have
    "x * cols b + y < length (cells b)" "x' * cols b + y' < length (cells b)"
    "cells b ! (x * cols b + y) = Some p" "cells b ! (x' * cols b + y') = Some p"
    by (auto simp: cell_ptr_def split: if_splits option.splits)
  moreover from ok have "distinct (cell_ptrs b)" by (simp add: body_ok_def)
  ultimately have "x * cols b + y = x' * cols b + y'"
    unfolding cell_ptrs_def by (rule cell_ptrs_nth_inj [rotated])
  with xy xy' sq show ?thesis
    using square_index_inj [of x "cols b" y x' y'] by simp
qed

lemma fold_write_value:
  assumes "p < length g"
    and "(\<exists>i\<in>set ps. slot_ptr n (fst i) (snd i) = p) \<or> g ! p = \<lparr>alive = v\<rparr>"
    and "\<forall>i\<in>set ps. slot_ptr n (fst i) (snd i) = p \<longrightarrow> next_alive h b (fst i) (snd i) = v"
  shows "fold (write_cell h n b) ps g ! p = \<lparr>alive = v\<rparr>"
  using assms
proof (induction ps arbitrary: g)
  case Nil
  then show ?case by simp
next
  case (Cons i ps)
  let ?w = "write_cell h n b i"
  have 1: "p < length (?w g)" using Cons.prems(1) by (simp add: write_cell_def)
  have 2: "(\<exists>i\<in>set ps. slot_ptr n (fst i) (snd i) = p) \<or> ?w g ! p = \<lparr>alive = v\<rparr>"
    using Cons.prems
    by (cases "slot_ptr n (fst i) (snd i) = p") (auto simp: write_cell_def)
  have 3: "\<forall>i\<in>set ps. slot_ptr n (fst i) (snd i) = p \<longrightarrow> next_alive h b (fst i) (snd i) = v"
    using Cons.prems(3) by simp
  from Cons.IH [OF 1 2 3] show ?case by simp
qed

lemma square_cell_ptrs:
  assumes ok: "body_ok h b" and sq: "rows b = cols b"
  shows "cell_ptrs b = map (\<lambda>i. slot_ptr b (fst i) (snd i)) (positions b)"
proof -
  let ?f = "\<lambda>s. case s of None \<Rightarrow> [] | Some p \<Rightarrow> [p]"
  let ?n = "cols b * cols b"
  from ok sq have len: "length (cells b) = ?n" by (simp add: body_ok_def)
  have some: "?f (cells b ! k) = [slot_ptr b (fst i) (snd i)]"
    if "i \<in> set (positions b)" "k = fst i * cols b + snd i" for i k
  proof -
    from that(1) have "fst i < cols b" "snd i < rows b"
      using positions_iff [of "fst i" "snd i" b] by simp_all
    from body_ok_cell_ptr [OF ok this] that(2) show ?thesis
      by (auto simp: slot_ptr_def cell_ptr_def split: if_splits option.splits)
  qed
  have "cells b = map (\<lambda>k. cells b ! k) [0..<?n]"
    using len by (metis map_nth)
  also have "[0..<?n] = map (\<lambda>i. fst i * cols b + snd i) (positions b)"
    using square_slots [OF sq] slots_positions by simp
  finally have "cells b = map (\<lambda>i. cells b ! (fst i * cols b + snd i)) (positions b)"
    by (simp add: comp_def)
  then have "concat (map ?f (cells b)) =
      concat (map ?f (map (\<lambda>i. cells b ! (fst i * cols b + snd i)) (positions b)))"
    by (rule arg_cong [where f = "\<lambda>xs. concat (map ?f xs)"])
  then have "cell_ptrs b =
      concat (map (\<lambda>i. ?f (cells b ! (fst i * cols b + snd i))) (positions b))"
    by (simp add: cell_ptrs_def comp_def)
  also have "\<dots> = concat (map (\<lambda>i. [slot_ptr b (fst i) (snd i)]) (positions b))"
    by (rule arg_cong [where f = concat], rule map_cong [OF refl]) (simp add: some)
  finally show ?thesis by (simp add: concat_map_singleton)
qed

text \<open>
  On square bodies the engine implements the rule of the spec: after the call the
  cell of \<open>body_new\<close> at every position holds the state the rule gives for that
  position of \<open>body_old\<close>, and the count handed back is the number of live cells
  of \<open>body_new\<close>.
\<close>

theorem compute_generation_square:
  assumes ok: "body_ok h body_new" "body_ok h body_old"
    and dims: "rows body_new = rows body_old" "cols body_new = cols body_old"
    and sq: "rows body_old = cols body_old"
    and dis: "disjoint_bodies body_new body_old"
  shows "\<exists>h' pop. compute_generation body_new body_old (h, q) = Inr (h', pop) \<and>
           (\<forall>x y. x < cols body_old \<and> y < rows body_old \<longrightarrow>
                  alive_at h' body_new x y = next_alive h body_old x y) \<and>
           pop = int (population h' body_new)"
proof -
  let ?ps = "positions body_old"
  let ?w = "write_cell h body_new body_old"
  let ?h = "fold ?w ?ps h"
  let ?pop = "sum_list (map (\<lambda>i. of_bool (next_alive h body_old (fst i) (snd i))) ?ps)"
  have ps: "positions body_new = ?ps" by (simp add: positions_def dims)
  have sq': "rows body_new = cols body_new" using sq dims by simp
  have run: "compute_generation body_new body_old (h, q) = Inr (?h, ?pop)"
    by (rule compute_generation_closed [OF ok dims dis same_outside_refl])
  have len: "length ?h = length h" by (rule fold_write_length)
  have cell: "slot_ptr body_new x y < length h \<and>
              ?h ! slot_ptr body_new x y = \<lparr>alive = next_alive h body_old x y\<rparr> \<and>
              alive_at ?h body_new x y = next_alive h body_old x y"
    if xy: "x < cols body_old" "y < rows body_old" for x y
  proof -
    from xy dims have xy': "x < cols body_new" "y < rows body_new" by simp_all
    from body_ok_cell_ptr [OF ok(1) xy'] obtain p where
      p: "cell_ptr body_new (x * cols body_new + y) = Inr p" "p < length h" by blast
    then have sp: "slot_ptr body_new x y = p" by (simp add: slot_ptr_def)
    have mem: "(x, y) \<in> set ?ps" using xy by (simp add: positions_iff)
    have "\<exists>i\<in>set ?ps. slot_ptr body_new (fst i) (snd i) = p"
      using mem sp by force
    moreover have "\<forall>i\<in>set ?ps. slot_ptr body_new (fst i) (snd i) = p \<longrightarrow>
        next_alive h body_old (fst i) (snd i) = next_alive h body_old x y"
    proof (intro ballI impI)
      fix i assume i: "i \<in> set ?ps" and e: "slot_ptr body_new (fst i) (snd i) = p"
      from i have "fst i < cols body_new" "snd i < rows body_new"
        using positions_iff [of "fst i" "snd i" body_old] dims by simp_all
      from square_slot_ptr_inj [OF ok(1) sq' this xy'] e sp
      show "next_alive h body_old (fst i) (snd i) = next_alive h body_old x y" by simp
    qed
    ultimately have v: "?h ! p = \<lparr>alive = next_alive h body_old x y\<rparr>"
      using p(2) by (intro fold_write_value) simp_all
    with p len have "alive_at ?h body_new x y = next_alive h body_old x y"
      by (simp add: alive_at_def get_alive_def)
    with v sp p(2) show ?thesis by simp
  qed
  have "int (population ?h body_new) =
        sum_list (map (\<lambda>i. of_bool (slot_ptr body_new (fst i) (snd i) < length ?h \<and>
           alive (?h ! slot_ptr body_new (fst i) (snd i)))) ?ps)"
    by (simp add: population_def square_cell_ptrs [OF ok(1) sq'] ps filter_map
        length_filter_sum comp_def)
  also have "\<dots> = ?pop"
  proof (rule arg_cong [where f = sum_list], rule map_cong [OF refl])
    fix i assume "i \<in> set ?ps"
    then have "fst i < cols body_old" "snd i < rows body_old"
      using positions_iff [of "fst i" "snd i" body_old] by simp_all
    from cell [OF this] len
    show "of_bool (slot_ptr body_new (fst i) (snd i) < length ?h \<and>
           alive (?h ! slot_ptr body_new (fst i) (snd i))) =
          (of_bool (next_alive h body_old (fst i) (snd i)) :: int)"
      by simp
  qed
  finally have pop: "?pop = int (population ?h body_new)" by simp
  from run cell pop show ?thesis
    by (intro exI [of _ ?h] exI [of _ ?pop]) simp
qed

section \<open>Toggling a cell\<close>

lemma cell_same: "\<lparr>alive = alive (c :: cell_t)\<rparr> = c"
  by (cases c) simp

text \<open>
  A toggle, seen from the heap. In a well-formed body, a toggle at a position
  inside the body returns; it changes the heap at the address of that cell only,
  negates the state of the cell, and moves the count by +1 when the cell became
  alive and by -1 when it became dead. A second toggle at the same position gives
  back the heap and the count from before the first. This speaks of cells, not of
  positions: where two positions share a cell, both read the new state.
\<close>

theorem toggle_twice_restores:
  assumes ok: "body_ok h b" and xy: "0 \<le> x" "x < int (cols b)" "0 \<le> y" "y < int (rows b)"
  shows "\<exists>h1 pop1.
           toggle b x y (h, pop) = Inr (h1, pop1) \<and>
           length h1 = length h \<and>
           (\<forall>p. p \<noteq> slot_ptr b (nat x) (nat y) \<longrightarrow> h1 ! p = h ! p) \<and>
           alive_at h1 b (nat x) (nat y) = (\<not> alive_at h b (nat x) (nat y)) \<and>
           pop1 = pop + (if alive_at h1 b (nat x) (nat y) then 1 else - 1) \<and>
           toggle b x y (h1, pop1) = Inr (h, pop)"
proof -
  let ?i = "nat (x * int (cols b) + y)"
  from xy have xy': "nat x < cols b" "nat y < rows b" by simp_all
  from xy have nn: "0 \<le> x * int (cols b)" by simp
  have i2: "\<not> x * int (cols b) + y < 0" using nn xy(3) by linarith
  from xy nn have i1: "?i = nat x * cols b + nat y"
    by (simp add: nat_add_distrib nat_mult_distrib)
  note i = i1 i2
  from body_ok_cell_ptr [OF ok xy'] i obtain p where
    p: "cell_ptr b ?i = Inr p" "p < length h" by auto
  then have sp: "slot_ptr b (nat x) (nat y) = p" by (simp add: slot_ptr_def i)
  let ?v = "alive (h ! p)"
  let ?h1 = "h[p := \<lparr>alive = \<not> ?v\<rparr>]"
  have a0: "alive_at h b (nat x) (nat y) = ?v"
    using p by (simp add: alive_at_def get_alive_def i1 [symmetric])
  have a1: "alive_at ?h1 b (nat x) (nat y) = (\<not> ?v)"
    using p by (simp add: alive_at_def get_alive_def i1 [symmetric])
  have t1: "toggle b x y (h, pop) = Inr (?h1, pop + (2 * of_bool (\<not> ?v) - 1))"
    using p i(2) by (simp add: toggle_def get_alive_def set_alive_def cell_update)
  have undo: "h[p := \<lparr>alive = v\<rparr>] = h" if "alive (h ! p) = v" for v
  proof -
    from that cell_same [of "h ! p"] have "h ! p = \<lparr>alive = v\<rparr>" by simp
    then show ?thesis by (metis list_update_id)
  qed
  have t2: "toggle b x y (?h1, pop + (2 * of_bool (\<not> ?v) - 1)) = Inr (h, pop)"
    using p i(2) by (simp add: toggle_def get_alive_def set_alive_def cell_update undo)
  show ?thesis
    using t1 t2 a0 a1 sp
    by (intro exI [of _ ?h1] exI [of _ "pop + (2 * of_bool (\<not> ?v) - 1)"]) auto
qed

lemma square_body_3_dead_ok: "body_ok (heap_of (replicate 9 False)) (square_body 3 0)"
  by code_simp

theorem toggle_twice_restores_witness:
  "body_ok (heap_of (replicate 9 False)) (square_body 3 0) \<and>
   (0::int) \<le> 1 \<and> 1 < int (cols (square_body 3 0)) \<and> 1 < int (rows (square_body 3 0)) \<and>
   toggle (square_body 3 0) 1 1 (heap_of (replicate 9 False), 0) =
     Inr (heap_of [False, False, False, False, True, False, False, False, False], 1) \<and>
   toggle (square_body 3 0) 1 1
     (heap_of [False, False, False, False, True, False, False, False, False], 1) =
     Inr (heap_of (replicate 9 False), 0)"
proof -
  have c: "(1::int) < int (cols (square_body 3 0))" and r: "(1::int) < int (rows (square_body 3 0))"
    by (simp_all add: square_body_def)
  have z: "(0::int) \<le> 1" by simp
  have e: "toggle (square_body 3 0) 1 1 (heap_of (replicate 9 False), 0) =
     Inr (heap_of [False, False, False, False, True, False, False, False, False], 1)"
    by code_simp
  from toggle_twice_restores [OF square_body_3_dead_ok z c z r, of 0] e
  have "toggle (square_body 3 0) 1 1
     (heap_of [False, False, False, False, True, False, False, False, False], 1) =
     Inr (heap_of (replicate 9 False), 0)"
    by auto
  with e c r square_body_3_dead_ok show ?thesis by simp
qed

text \<open>
  Claim C9 at a body of 3 rows and 2 columns, freshly made and all dead. The toggle
  at \<open>(0, 2)\<close> negates the cell in slot \<open>0 * 2 + 2\<close>, which is also the slot
  \<open>1 * 2 + 0\<close> of position \<open>(1, 0)\<close>: after the one toggle the positions \<open>(0, 2)\<close>
  and \<open>(1, 0)\<close> both read alive, and the count is 1.
\<close>

theorem toggle_tall_body:
  "body_init 3 2 [] = Inr (tall_old, heap_of (replicate 6 False)) \<and>
   body_ok (heap_of (replicate 6 False)) tall_old \<and>
   alive_positions (heap_of (replicate 6 False)) tall_old = [] \<and>
   toggle tall_old 0 2 (heap_of (replicate 6 False), 0) =
     Inr (heap_of [False, False, False, True, False, False], 1) \<and>
   alive_at (heap_of [False, False, False, True, False, False]) tall_old 0 2 \<and>
   alive_at (heap_of [False, False, False, True, False, False]) tall_old 1 0 \<and>
   alive_positions (heap_of [False, False, False, True, False, False]) tall_old =
     [(0, 2), (1, 0)]"
  by code_simp

section \<open>Seeding: the strategies at particular inputs\<close>

lemma example_bodies_from_body_init:
  "body_init 4 2 [] = Inr (slim_body, heap_of (replicate 8 False))"
  "body_init 4 4 [] = Inr (square_body 4 0, heap_of (replicate 16 False))"
  "body_init 2 2 [] = Inr (square_body 2 0, heap_of (replicate 4 False))"
  by code_simp+

text \<open>
  Claim C6 at a body of 4 rows and 2 columns, freshly made, with the percentage
  100. The sub-region is \<open>x\<close> in \<open>[0, 1)\<close> and \<open>y\<close> in \<open>[1, 3)\<close>. The pass for \<open>(0, 2)\<close>
  stores into slot \<open>0 * 2 + 2\<close>, which is the slot \<open>1 * 2 + 0\<close> of position \<open>(1, 0)\<close>:
  after the call the cell at \<open>(1, 0)\<close>, outside the sub-region, is alive.
\<close>

theorem random_mode_slim_body:
  "body_ok (heap_of (replicate 8 False)) slim_body \<and>
   inital_generation (CHR ''r'') certain_world slim_body (heap_of (replicate 8 False), 0) =
     Some (Inr (Some slim_body,
       heap_of [False, True, False, False, True, False, False, False], 2)) \<and>
   cols slim_body div 4 = 0 \<and> 3 * cols slim_body div 4 = 1 \<and>
   alive_at (heap_of [False, True, False, False, True, False, False, False]) slim_body 1 0"
  by code_simp

text \<open>
  Claim C3 at a pattern file that lists the offset \<open>0,0\<close> twice, on a fresh body of
  4 by 4 cells: the one cell at \<open>(2, 2)\<close> is alive after the call, and the count
  handed back is 2.
\<close>

theorem pattern_mode_repeated_line:
  "inital_generation (CHR ''p'')
     (certain_world\<lparr>pattern_file :=
        Some (''x,y'' @ [CHR 0x0A] @ ''0,0'' @ [CHR 0x0A] @ ''0,0'' @ [CHR 0x0A])\<rparr>)
     (square_body 4 0) (heap_of (replicate 16 False), 0) =
     Some (Inr (Some (square_body 4 0),
       heap_of (replicate 10 False @ [True] @ replicate 5 False), 2)) \<and>
   population (heap_of (replicate 10 False @ [True] @ replicate 5 False)) (square_body 4 0) = 1"
  by code_simp

text \<open>
  Claim C7 at a pattern file whose one data line is \<open>-1,0\<close>, on a fresh body of 4 by
  4 cells. The cell the claim names, at \<open>(-1 + 4 div 2, 0 + 4 div 2) = (1, 2)\<close>, lies
  in the body. The program casts -1 to \<open>size_t\<close> and adds the \<open>double\<close> 2.0; the sum
  is 2 to the power 64, which no \<open>size_t\<close> holds, and the conversion back is
  undefined: the cell at \<open>(1, 2)\<close> is not what the program sets alive. A file that
  cannot be opened gives \<open>NULL\<close> and leaves heap and count alone.
\<close>

theorem pattern_mode_negative_offset:
  "atoi ''-1'' = - 1 \<and>
   pattern_mode (Some (''x,y'' @ [CHR 0x0A] @ ''-1,0'' @ [CHR 0x0A]))
     (square_body 4 0) (heap_of (replicate 16 False), 0) = Inl BadConversion \<and>
   pattern_mode (Some (''x,y'' @ [CHR 0x0A] @ ''1,0'' @ [CHR 0x0A]))
     (square_body 4 0) (heap_of (replicate 16 False), 0) =
     Inr (Some (square_body 4 0), heap_of (replicate 14 False @ [True, False]), 1) \<and>
   pattern_mode None (square_body 4 0) (heap_of (replicate 16 False), 0) =
     Inr (None, heap_of (replicate 16 False), 0)"
  by code_simp

section \<open>Printing and parsing numbers\<close>

lemma digit_char: "d < 10 \<Longrightarrow> (of_char (char_of (48 + d :: nat)) :: nat) = 48 + d"
  by simp

lemma digits_isdigit: "c \<in> set (digits n) \<Longrightarrow> isdigit c"
proof (induction n rule: digits.induct)
  case (1 n)
  show ?case
  proof (cases "n < 10")
    case True
    with "1.prems" show ?thesis
      by (simp add: digits.simps [of n] isdigit_def)
  next
    case False
    have "n mod 10 < 10" by simp
    with False "1.prems" "1.IH" show ?thesis
      by (auto simp: digits.simps [of n] isdigit_def)
  qed
qed

lemma digits_nonempty: "digits n \<noteq> []"
  by (subst digits.simps) simp

lemma digits_val_snoc:
  "digits_val (ds @ [c]) = 10 * digits_val ds + ((of_char c :: nat) - 48)"
  by (simp add: digits_val_def)

lemma digits_val_digits: "digits_val (digits n) = n"
proof (induction n rule: digits.induct)
  case (1 n)
  show ?case
  proof (cases "n < 10")
    case True
    then show ?thesis
      by (simp add: digits.simps [of n] digits_val_def)
  next
    case False
    have "n mod 10 < 10" by simp
    with False "1.IH" show ?thesis
      by (simp add: digits.simps [of n] digits_val_snoc)
  qed
qed

lemma isdigit_plain:
  assumes "isdigit c"
  shows "c \<noteq> CHR '',''" "c \<noteq> CHR 0x0A" "c \<noteq> CHR 0x00" "\<not> isspace c"
    "c \<noteq> CHR ''-''" "c \<noteq> CHR ''+''"
  using assms by (auto simp: isdigit_def isspace_def)

lemma takeWhile_digits: "takeWhile isdigit (digits n @ r) = digits n @ takeWhile isdigit r"
  by (simp add: takeWhile_append2 digits_isdigit)

lemma atoi_digits: "atoi (digits n) = int n"
proof -
  obtain c r where cr: "digits n = c # r"
    using digits_nonempty [of n] by (cases "digits n") auto
  then have c: "isdigit c" using digits_isdigit [of c n] by simp
  have tw: "takeWhile isdigit (digits n) = digits n"
    using takeWhile_digits [of n "[]"] by simp
  from isdigit_plain [OF c] tw cr digits_val_digits [of n] show ?thesis
    by (simp add: atoi_def)
qed

lemma fmt_d_nat: "fmt_d (int n) = digits n"
  by (simp add: fmt_d_def)

lemma strtok_digits_comma:
  "strtok (digits x @ CHR '','' # r) = Some (digits x, r)"
proof -
  obtain c t where ct: "digits x = c # t"
    using digits_nonempty [of x] by (cases "digits x") auto
  then have c: "isdigit c" using digits_isdigit [of c x] by simp
  have nc: "\<forall>d\<in>set (digits x). d \<noteq> CHR '',''"
    using digits_isdigit isdigit_plain(1) by blast
  have 1: "dropWhile (\<lambda>c. c = CHR '','') (digits x @ CHR '','' # r) = digits x @ CHR '','' # r"
    using ct isdigit_plain(1) [OF c] by simp
  have 2: "takeWhile (\<lambda>c. c \<noteq> CHR '','') (digits x @ CHR '','' # r) = digits x"
    using nc by (simp add: takeWhile_append2)
  have 3: "dropWhile (\<lambda>c. c \<noteq> CHR '','') (digits x @ CHR '','' # r) = CHR '','' # r"
    using nc by (simp add: dropWhile_append2)
  from ct have 4: "digits x @ CHR '','' # r = c # (t @ CHR '','' # r)" by simp
  show ?thesis
    unfolding strtok_def 1 using 2 3 unfolding 4 by simp
qed

lemma strtok_digits: "strtok (digits y) = Some (digits y, [])"
proof -
  obtain c t where ct: "digits y = c # t"
    using digits_nonempty [of y] by (cases "digits y") auto
  then have c: "isdigit c" using digits_isdigit [of c y] by simp
  have nc: "\<forall>d\<in>set (digits y). d \<noteq> CHR '',''"
    using digits_isdigit isdigit_plain(1) by blast
  have 1: "dropWhile (\<lambda>c. c = CHR '','') (digits y) = digits y"
    using ct isdigit_plain(1) [OF c] by simp
  have 2: "takeWhile (\<lambda>c. c \<noteq> CHR '','') (digits y) = digits y"
    using nc by simp
  have 3: "dropWhile (\<lambda>c. c \<noteq> CHR '','') (digits y) = []"
    using nc by simp
  show ?thesis
    unfolding strtok_def 1 using 2 3 unfolding ct by simp
qed

section \<open>Lines of an exported file\<close>

lemma export_line_plain:
  "c \<in> set (butlast (export_line x y)) \<Longrightarrow> c \<noteq> CHR 0x0A \<and> c \<noteq> CHR 0x00"
  "butlast (export_line x y) = digits x @ CHR '','' # digits y"
  "export_line x y = butlast (export_line x y) @ [CHR 0x0A]"
proof -
  show b: "butlast (export_line x y) = digits x @ CHR '','' # digits y"
    by (simp add: export_line_def fmt_d_nat butlast_append digits_nonempty)
  show "export_line x y = butlast (export_line x y) @ [CHR 0x0A]"
    unfolding b by (simp add: export_line_def fmt_d_nat)
  assume "c \<in> set (butlast (export_line x y))"
  then have "isdigit c \<or> c = CHR '',''"
    unfolding b using digits_isdigit by auto
  then show "c \<noteq> CHR 0x0A \<and> c \<noteq> CHR 0x00"
    using isdigit_plain(2,3) by auto
qed

lemma getline_export_line:
  "getline (export_line x y @ r) = Some (export_line x y, r)"
proof -
  let ?b = "butlast (export_line x y)"
  have nl: "\<forall>c\<in>set ?b. c \<noteq> CHR 0x0A" using export_line_plain(1) by blast
  have e: "export_line x y @ r = ?b @ CHR 0x0A # r"
    using export_line_plain(3) [of x y] by (metis append_Cons append_Nil append_assoc)
  have 1: "dropWhile (\<lambda>c. c \<noteq> CHR 0x0A) (?b @ CHR 0x0A # r) = CHR 0x0A # r"
    using nl by (simp add: dropWhile_append2)
  have 2: "takeWhile (\<lambda>c. c \<noteq> CHR 0x0A) (?b @ CHR 0x0A # r) = ?b"
    using nl by (simp add: takeWhile_append2)
  show ?thesis
    unfolding e getline_def 1 2 using export_line_plain(3) [of x y] by simp
qed

lemma c_string_export_line: "c_string (export_line x y) = export_line x y"
proof -
  have "c \<noteq> CHR 0x00" if "c \<in> set (export_line x y)" for c
  proof -
    from that have "c \<in> set (butlast (export_line x y) @ [CHR 0x0A])"
      using export_line_plain(3) [of x y] by simp
    then have "c \<in> set (butlast (export_line x y)) \<or> c = CHR 0x0A" by auto
    then show ?thesis using export_line_plain(1) [of c x y] by auto
  qed
  then show ?thesis by (simp add: c_string_def)
qed

lemma pattern_point_export_line:
  "pattern_point b (export_line x y) (h, pop) =
     (case set_alive h b ((x + cols b div 2) * cols b + (y + rows b div 2)) True of
        Inl e \<Rightarrow> Inl e
      | Inr h' \<Rightarrow> Inr (h', pop + 1))"
proof -
  have ne: "export_line x y \<noteq> []" by (simp add: export_line_def)
  show ?thesis
    by (simp add: pattern_point_def c_string_export_line ne export_line_plain(2)
        strtok_digits_comma strtok_digits atoi_digits)
qed

section \<open>Export, then import\<close>

lemma export_loop:
  assumes ok: "body_ok h b" and ps: "\<forall>i\<in>set ps. fst i < cols b \<and> snd i < rows b"
  shows "for_each ps (\<lambda>(x, y). export_cell h b x y) out =
         Inr (out @ concat (map (\<lambda>i. export_line (fst i) (snd i))
                (filter (\<lambda>i. alive_at h b (fst i) (snd i)) ps)))"
  using ps
proof (induction ps arbitrary: out)
  case Nil
  then show ?case by simp
next
  case (Cons i ps)
  obtain x y where i: "i = (x, y)" by (cases i)
  from Cons.prems i have xy: "x < cols b" "y < rows b" by simp_all
  from Cons.prems have "\<forall>i\<in>set ps. fst i < cols b \<and> snd i < rows b" by simp
  from Cons.IH [OF this] show ?case
    by (simp add: i export_cell_def body_ok_get_alive [OF ok xy])
qed

lemma export_body_closed:
  assumes "body_ok h b"
  shows "export_body True h b =
         Inr (Some ((''x,y'' @ [CHR 0x0A]) @
                concat (map (\<lambda>i. export_line (fst i) (snd i)) (alive_positions h b))))"
proof -
  have ps: "\<forall>i\<in>set (positions b). fst i < cols b \<and> snd i < rows b"
    using positions_iff by auto
  have "for_each [0..<cols b] (\<lambda>x. for_each [0..<rows b] (export_cell h b x)) out =
        for_each (positions b) (\<lambda>(x, y). export_cell h b x y) out" for out
    by (simp add: positions_def for_each_nested)
  with export_loop [OF assms ps] show ?thesis
    by (simp add: export_body_def alive_positions_def)
qed

lemma getline_header: "getline ((''x,y'' @ [CHR 0x0A]) @ r) = Some (''x,y'' @ [CHR 0x0A], r)"
  by (simp add: getline_def)

lemma pattern_loop_lines:
  "pattern_loop c (concat (map (\<lambda>i. export_line (fst i) (snd i)) ps)) s =
   for_each ps (\<lambda>i. pattern_point c (export_line (fst i) (snd i))) s"
proof (induction ps arbitrary: s)
  case Nil
  show ?case by (simp add: pattern_loop.simps [of c "[]"] getline_def)
next
  case (Cons i ps)
  show ?case
    by (subst pattern_loop.simps)
       (simp add: getline_export_line Cons.IH split: sum.splits)
qed

lemma body_ok_length: "body_ok g c \<Longrightarrow> length g' = length g \<Longrightarrow> body_ok g' c"
  by (auto simp: body_ok_def cong: option.case_cong)

lemma place_loop:
  assumes ok: "body_ok g c"
    and ps: "\<forall>i\<in>set ps. fst (pattern_target c i) < cols c \<and> snd (pattern_target c i) < rows c"
  shows "for_each ps (\<lambda>i. pattern_point c (export_line (fst i) (snd i))) (g, pop) =
         Inr (fold (place_cell c) ps g, pop + int (length ps))"
  using ok ps
proof (induction ps arbitrary: g pop)
  case Nil
  then show ?case by simp
next
  case (Cons i ps)
  let ?x = "fst (pattern_target c i)" and ?y = "snd (pattern_target c i)"
  from Cons.prems(2) have t: "?x < cols c" "?y < rows c" by simp_all
  from body_ok_cell_ptr [OF Cons.prems(1) t] obtain p where
    p: "cell_ptr c (?x * cols c + ?y) = Inr p" "p < length g" by blast
  then have sp: "slot_ptr c ?x ?y = p" by (simp add: slot_ptr_def)
  have step: "pattern_point c (export_line (fst i) (snd i)) (g, pop) =
              Inr (place_cell c i g, pop + 1)"
    using p sp
    by (simp add: pattern_point_export_line set_alive_def place_cell_def cell_update
        pattern_target_def)
  have ok': "body_ok (place_cell c i g) c"
    by (rule body_ok_length [OF Cons.prems(1)]) (simp add: place_cell_def)
  from Cons.prems(2) have
    "\<forall>i\<in>set ps. fst (pattern_target c i) < cols c \<and> snd (pattern_target c i) < rows c"
    by simp
  from Cons.IH [OF ok' this] step show ?case by simp
qed

lemma fold_place_length: "length (fold (place_cell c) ps g) = length g"
  by (induction ps arbitrary: g) (simp_all add: place_cell_def)

lemma fold_place_alive:
  assumes "p < length g"
  shows "alive (fold (place_cell c) ps g ! p) \<longleftrightarrow>
         alive (g ! p) \<or>
         (\<exists>i\<in>set ps. slot_ptr c (fst (pattern_target c i)) (snd (pattern_target c i)) = p)"
  using assms
proof (induction ps arbitrary: g)
  case Nil
  then show ?case by simp
next
  case (Cons i ps)
  have "p < length (place_cell c i g)" using Cons.prems by (simp add: place_cell_def)
  from Cons.IH [OF this] Cons.prems show ?case
    by (cases "slot_ptr c (fst (pattern_target c i)) (snd (pattern_target c i)) = p")
       (auto simp: place_cell_def)
qed

text \<open>
  Claim C8 at a body of 2 by 2 cells whose only live cell is at \<open>(0, 0)\<close>: the
  exported file is the header and the line \<open>0,0\<close>, and importing it into a fresh
  body of the same size makes the cell at \<open>(1, 1)\<close> alive and no other, since
  \<open>export_body\<close> writes positions and \<open>pattern_mode\<close> reads offsets from the centre.
  And at a body of 4 by 4 cells seeded from the pattern \<open>0,0\<close>: its live cell is at
  \<open>(2, 2)\<close>, the export is the line \<open>2,2\<close>, and importing that into a fresh body of
  the same size aims at \<open>(4, 4)\<close>, slot 20 of an array of 16.
\<close>

theorem export_import_round_trip:
  "export_body True (heap_of [True, False, False, False, False, False, False, False])
     (square_body 2 0) = Inr (Some (''x,y'' @ [CHR 0x0A] @ ''0,0'' @ [CHR 0x0A])) \<and>
   pattern_mode (Some (''x,y'' @ [CHR 0x0A] @ ''0,0'' @ [CHR 0x0A])) (square_body 2 4)
     (heap_of [True, False, False, False, False, False, False, False], 0) =
     Inr (Some (square_body 2 4),
          heap_of [True, False, False, False, False, False, False, True], 1) \<and>
   alive_positions (heap_of [True, False, False, False, False, False, False, False])
     (square_body 2 0) = [(0, 0)] \<and>
   alive_positions (heap_of [True, False, False, False, False, False, False, True])
     (square_body 2 4) = [(1, 1)] \<and>
   pattern_mode (Some (''x,y'' @ [CHR 0x0A] @ ''0,0'' @ [CHR 0x0A])) (square_body 4 0)
     (heap_of (replicate 32 False), 0) =
     Inr (Some (square_body 4 0),
          heap_of (replicate 10 False @ [True] @ replicate 21 False), 1) \<and>
   export_body True (heap_of (replicate 10 False @ [True] @ replicate 21 False))
     (square_body 4 0) = Inr (Some (''x,y'' @ [CHR 0x0A] @ ''2,2'' @ [CHR 0x0A])) \<and>
   pattern_mode (Some (''x,y'' @ [CHR 0x0A] @ ''2,2'' @ [CHR 0x0A])) (square_body 4 16)
     (heap_of (replicate 10 False @ [True] @ replicate 21 False), 0) = Inl IndexOutOfRange"
  by code_simp

text \<open>
  How far the file that \<open>export_body\<close> writes is moved when \<open>pattern_mode\<close> reads
  it. Take a well-formed square body whose live cells all have their translate by
  \<open>(cols div 2, rows div 2)\<close> inside the body, and a well-formed body of the same
  dimensions with no live cell. Then \<open>export_body\<close> produces a file, \<open>pattern_mode\<close>
  reads it into the second body without fault, and the set of live positions of
  the second body is the set of live positions of the first, translated by
  \<open>(cols div 2, rows div 2)\<close>: the same set only when both halves are 0.
\<close>

theorem export_then_import_translates:
  assumes src: "body_ok h b" and sq: "rows b = cols b"
    and dst: "body_ok g c" and dims: "rows c = rows b" "cols c = cols b"
    and fresh: "alive_positions g c = []"
    and inside: "list_all (\<lambda>i. fst (pattern_target b i) < cols b \<and>
                              snd (pattern_target b i) < rows b) (alive_positions h b)"
  shows "\<exists>out g' pop.
           export_body True h b = Inr (Some out) \<and>
           pattern_mode (Some out) c (g, 0) = Inr (Some c, g', pop) \<and>
           set (alive_positions g' c) = pattern_target c ` set (alive_positions h b)"
proof -
  let ?ps = "alive_positions h b"
  let ?out = "(''x,y'' @ [CHR 0x0A]) @ concat (map (\<lambda>i. export_line (fst i) (snd i)) ?ps)"
  let ?g = "fold (place_cell c) ?ps g"
  have sq': "rows c = cols c" using sq dims by simp
  have amem: "i \<in> set (alive_positions k d) \<longleftrightarrow>
      fst i < cols d \<and> snd i < rows d \<and> alive_at k d (fst i) (snd i)" for i k d
    using positions_iff [of "fst i" "snd i" d] by (auto simp: alive_positions_def)
  have dead: "\<forall>x y. x < cols c \<and> y < rows c \<longrightarrow> \<not> alive_at g c x y"
    using fresh amem [of "(x, y)" g c for x y] by simp
  have fits: "\<forall>x y. x < cols b \<and> y < rows b \<and> alive_at h b x y \<longrightarrow>
                 x + cols b div 2 < cols b \<and> y + rows b div 2 < rows b"
  proof (intro allI impI)
    fix x y assume "x < cols b \<and> y < rows b \<and> alive_at h b x y"
    then have "(x, y) \<in> set ?ps" by (simp add: amem)
    with inside show "x + cols b div 2 < cols b \<and> y + rows b div 2 < rows b"
      by (auto simp: list_all_iff pattern_target_def)
  qed
  have mem: "i \<in> set ?ps \<longleftrightarrow> fst i < cols b \<and> snd i < rows b \<and> alive_at h b (fst i) (snd i)"
    for i using positions_iff [of "fst i" "snd i" b] by (auto simp: alive_positions_def)
  have tgt: "\<forall>i\<in>set ?ps. fst (pattern_target c i) < cols c \<and> snd (pattern_target c i) < rows c"
  proof
    fix i assume "i \<in> set ?ps"
    with mem [of i] fits have "fst i + cols b div 2 < cols b \<and> snd i + rows b div 2 < rows b"
      by blast
    then show "fst (pattern_target c i) < cols c \<and> snd (pattern_target c i) < rows c"
      by (simp add: pattern_target_def dims)
  qed
  have exp: "export_body True h b = Inr (Some ?out)"
    by (rule export_body_closed [OF src])
  have imp: "pattern_mode (Some ?out) c (g, 0) = Inr (Some c, ?g, int (length ?ps))"
    unfolding pattern_mode_def option.case getline_header
    by (simp add: pattern_loop_lines place_loop [OF dst tgt])
  have cellwise: "alive_at ?g c x y =
      (cols b div 2 \<le> x \<and> rows b div 2 \<le> y \<and>
       alive_at h b (x - cols b div 2) (y - rows b div 2))"
    if xy: "x < cols c" "y < rows c" for x y
  proof -
    from body_ok_cell_ptr [OF dst xy] obtain p where
      p: "cell_ptr c (x * cols c + y) = Inr p" "p < length g" by blast
    then have sp: "slot_ptr c x y = p" by (simp add: slot_ptr_def)
    from p have old: "alive_at g c x y = alive (g ! p)"
      by (simp add: alive_at_def get_alive_def)
    from p have new: "alive_at ?g c x y = alive (?g ! p)"
      by (simp add: alive_at_def get_alive_def fold_place_length)
    have "(\<exists>i\<in>set ?ps. slot_ptr c (fst (pattern_target c i)) (snd (pattern_target c i)) = p)
          \<longleftrightarrow> (\<exists>i\<in>set ?ps. pattern_target c i = (x, y))"
    proof (rule bex_cong [OF refl])
      fix i assume i: "i \<in> set ?ps"
      with tgt have t: "fst (pattern_target c i) < cols c" "snd (pattern_target c i) < rows c"
        by simp_all
      show "slot_ptr c (fst (pattern_target c i)) (snd (pattern_target c i)) = p
            \<longleftrightarrow> pattern_target c i = (x, y)"
      proof
        assume "slot_ptr c (fst (pattern_target c i)) (snd (pattern_target c i)) = p"
        with sp square_slot_ptr_inj [OF dst sq' t xy]
        show "pattern_target c i = (x, y)" by (simp add: prod_eq_iff)
      next
        assume "pattern_target c i = (x, y)"
        with sp show "slot_ptr c (fst (pattern_target c i)) (snd (pattern_target c i)) = p"
          by simp
      qed
    qed
    also have "\<dots> \<longleftrightarrow> cols b div 2 \<le> x \<and> rows b div 2 \<le> y \<and>
         alive_at h b (x - cols b div 2) (y - rows b div 2)"
    proof
      assume "\<exists>i\<in>set ?ps. pattern_target c i = (x, y)"
      then obtain i where i: "i \<in> set ?ps" "pattern_target c i = (x, y)" by blast
      from i(2) have "x = fst i + cols b div 2" "y = snd i + rows b div 2"
        by (simp_all add: pattern_target_def dims)
      with i(1) mem [of i] show "cols b div 2 \<le> x \<and> rows b div 2 \<le> y \<and>
         alive_at h b (x - cols b div 2) (y - rows b div 2)" by simp
    next
      assume a: "cols b div 2 \<le> x \<and> rows b div 2 \<le> y \<and>
         alive_at h b (x - cols b div 2) (y - rows b div 2)"
      let ?i = "(x - cols b div 2, y - rows b div 2)"
      from xy dims have "x - cols b div 2 < cols b" "y - rows b div 2 < rows b"
        by arith+
      with a have "?i \<in> set ?ps" by (simp add: mem)
      moreover from a have "pattern_target c ?i = (x, y)"
        by (simp add: pattern_target_def dims)
      ultimately show "\<exists>i\<in>set ?ps. pattern_target c i = (x, y)" by blast
    qed
    finally show ?thesis
      using fold_place_alive [OF p(2), of c ?ps] dead xy old new by simp
  qed
  have "set (alive_positions ?g c) = pattern_target c ` set ?ps"
  proof (rule set_eqI)
    fix j
    show "j \<in> set (alive_positions ?g c) \<longleftrightarrow> j \<in> pattern_target c ` set ?ps"
    proof
      assume "j \<in> set (alive_positions ?g c)"
      then have j: "fst j < cols c" "snd j < rows c" "alive_at ?g c (fst j) (snd j)"
        by (simp_all add: amem)
      from cellwise [OF j(1,2)] j(3) have
        a: "cols b div 2 \<le> fst j" "rows b div 2 \<le> snd j"
           "alive_at h b (fst j - cols b div 2) (snd j - rows b div 2)" by simp_all
      let ?i = "(fst j - cols b div 2, snd j - rows b div 2)"
      from j dims have "fst j - cols b div 2 < cols b" "snd j - rows b div 2 < rows b"
        by arith+
      with a have "?i \<in> set ?ps" by (simp add: amem)
      moreover from a have "pattern_target c ?i = j"
        by (simp add: pattern_target_def dims prod_eq_iff)
      ultimately show "j \<in> pattern_target c ` set ?ps" by force
    next
      assume "j \<in> pattern_target c ` set ?ps"
      then obtain i where i: "i \<in> set ?ps" "j = pattern_target c i" by blast
      from tgt i have j: "fst j < cols c" "snd j < rows c" by simp_all
      from i have "alive_at h b (fst j - cols b div 2) (snd j - rows b div 2)"
        "cols b div 2 \<le> fst j" "rows b div 2 \<le> snd j"
        by (simp_all add: amem pattern_target_def dims)
      with cellwise [OF j] have "alive_at ?g c (fst j) (snd j)" by simp
      with j show "j \<in> set (alive_positions ?g c)" by (simp add: amem)
    qed
  qed
  with exp imp show ?thesis by blast
qed

theorem export_then_import_translates_witness:
  "body_ok (heap_of [True, False, False, False, False, False, False, False]) (square_body 2 0) \<and>
   rows (square_body 2 0) = cols (square_body 2 0) \<and>
   body_ok (heap_of [True, False, False, False, False, False, False, False]) (square_body 2 4) \<and>
   alive_positions (heap_of [True, False, False, False, False, False, False, False])
     (square_body 2 4) = [] \<and>
   (\<exists>out g' pop.
      export_body True (heap_of [True, False, False, False, False, False, False, False])
        (square_body 2 0) = Inr (Some out) \<and>
      pattern_mode (Some out) (square_body 2 4)
        (heap_of [True, False, False, False, False, False, False, False], 0) =
        Inr (Some (square_body 2 4), g', pop) \<and>
      set (alive_positions g' (square_body 2 4)) = {(1, 1)})"
proof -
  let ?h = "heap_of [True, False, False, False, False, False, False, False]"
  have 1: "body_ok ?h (square_body 2 0)" by code_simp
  have 2: "rows (square_body 2 0) = cols (square_body 2 0)" by (simp add: square_body_def)
  have 3: "body_ok ?h (square_body 2 4)" by code_simp
  have 4: "rows (square_body 2 4) = rows (square_body 2 0)"
    and 5: "cols (square_body 2 4) = cols (square_body 2 0)" by (simp_all add: square_body_def)
  have 6: "alive_positions ?h (square_body 2 4) = []" by code_simp
  have 7: "list_all (\<lambda>i. fst (pattern_target (square_body 2 0) i) < cols (square_body 2 0) \<and>
                         snd (pattern_target (square_body 2 0) i) < rows (square_body 2 0))
             (alive_positions ?h (square_body 2 0))" by code_simp
  have 8: "pattern_target (square_body 2 4) ` set (alive_positions ?h (square_body 2 0)) = {(1, 1)}"
    by code_simp
  from export_then_import_translates [OF 1 2 3 4 5 6 7] 1 2 3 6 show ?thesis
    unfolding 8 by blast
qed

section \<open>What \<open>body_init\<close> builds\<close>

lemma distinct_ptrs_by_nth:
  assumes "\<And>k l p. k < length xs \<Longrightarrow> l < length xs \<Longrightarrow> xs ! k = Some p \<Longrightarrow> xs ! l = Some p \<Longrightarrow> k = l"
  shows "distinct (concat (map (\<lambda>s. case s of None \<Rightarrow> [] | Some p \<Rightarrow> [p]) xs))"
  using assms
proof (induction xs)
  case Nil
  then show ?case by simp
next
  case (Cons s xs)
  let ?f = "\<lambda>s. case s of None \<Rightarrow> [] | Some p \<Rightarrow> [p]"
  have rest: "distinct (concat (map ?f xs))"
  proof (rule Cons.IH)
    fix k l p
    assume "k < length xs" "l < length xs" "xs ! k = Some p" "xs ! l = Some p"
    with Cons.prems [of "Suc k" "Suc l" p] show "k = l" by simp
  qed
  show ?case
  proof (cases s)
    case None
    with rest show ?thesis by simp
  next
    case (Some p)
    have "p \<notin> set (concat (map ?f xs))"
    proof
      assume "p \<in> set (concat (map ?f xs))"
      then obtain l where "l < length xs" "xs ! l = Some p"
        by (auto simp: in_set_conv_nth split: option.splits)
      with Cons.prems [of 0 "Suc l" p] Some show False by simp
    qed
    with rest Some show ?thesis by simp
  qed
qed

lemma body_init_loop:
  assumes "\<forall>i\<in>set ps. fst i * nc + snd i < length arr"
  shows "\<exists>arr'. for_each ps (\<lambda>(x, y). body_init_slot nc x y) (arr, h) =
             Inr (arr', h @ replicate (length ps) \<lparr>alive = False\<rparr>) \<and>
           length arr' = length arr \<and>
           (\<forall>k. k \<notin> (\<lambda>i. fst i * nc + snd i) ` set ps \<longrightarrow> arr' ! k = arr ! k) \<and>
           (\<forall>k \<in> (\<lambda>i. fst i * nc + snd i) ` set ps.
              \<exists>p. arr' ! k = Some p \<and> length h \<le> p \<and> p < length h + length ps) \<and>
           (\<forall>k \<in> (\<lambda>i. fst i * nc + snd i) ` set ps.
            \<forall>l \<in> (\<lambda>i. fst i * nc + snd i) ` set ps. arr' ! k = arr' ! l \<longrightarrow> k = l)"
  using assms
proof (induction ps arbitrary: arr h)
  case Nil
  then show ?case by simp
next
  case (Cons i ps)
  let ?idx = "\<lambda>i. fst i * nc + snd i"
  let ?W = "?idx ` set ps"
  obtain x y where i: "i = (x, y)" by (cases i)
  let ?k0 = "x * nc + y"
  let ?arr1 = "arr[?k0 := Some (length h)]"
  let ?h1 = "h @ [\<lparr>alive = False\<rparr>]"
  from Cons.prems i have k0: "?k0 < length arr" by simp
  have step: "body_init_slot nc x y (arr, h) = Inr (?arr1, ?h1)"
    using k0 by (simp add: body_init_slot_def cell_init_def)
  from Cons.prems have "\<forall>i\<in>set ps. fst i * nc + snd i < length ?arr1" by simp
  from Cons.IH [OF this, of ?h1] obtain arr' where
    run: "for_each ps (\<lambda>(x, y). body_init_slot nc x y) (?arr1, ?h1) =
            Inr (arr', ?h1 @ replicate (length ps) \<lparr>alive = False\<rparr>)"
    and len: "length arr' = length ?arr1"
    and keep: "\<forall>k. k \<notin> ?W \<longrightarrow> arr' ! k = ?arr1 ! k"
    and new: "\<forall>k\<in>?W. \<exists>p. arr' ! k = Some p \<and> length ?h1 \<le> p \<and> p < length ?h1 + length ps"
    and inj: "\<forall>k\<in>?W. \<forall>l\<in>?W. arr' ! k = arr' ! l \<longrightarrow> k = l"
    by blast
  have heap: "?h1 @ replicate (length ps) \<lparr>alive = False\<rparr> =
              h @ replicate (length (i # ps)) \<lparr>alive = False\<rparr>"
    by (simp add: replicate_append_same)
  have k0': "?k0 \<notin> ?W \<Longrightarrow> arr' ! ?k0 = Some (length h)"
    using keep k0 by simp
  have w: "?idx ` set (i # ps) = insert ?k0 ?W" by (simp add: i)
  have 1: "for_each (i # ps) (\<lambda>(x, y). body_init_slot nc x y) (arr, h) =
           Inr (arr', h @ replicate (length (i # ps)) \<lparr>alive = False\<rparr>)"
    using step run heap by (simp add: i)
  have 2: "length arr' = length arr" using len by simp
  have 3: "\<forall>k. k \<notin> ?idx ` set (i # ps) \<longrightarrow> arr' ! k = arr ! k"
    unfolding w using keep by auto
  have 4: "\<forall>k \<in> ?idx ` set (i # ps).
              \<exists>p. arr' ! k = Some p \<and> length h \<le> p \<and> p < length h + length (i # ps)"
    unfolding w
  proof
    fix k assume "k \<in> insert ?k0 ?W"
    then consider "k \<in> ?W" | "k = ?k0" "?k0 \<notin> ?W" by blast
    then show "\<exists>p. arr' ! k = Some p \<and> length h \<le> p \<and> p < length h + length (i # ps)"
    proof cases
      case 1
      with new obtain p where "arr' ! k = Some p" "length ?h1 \<le> p" "p < length ?h1 + length ps"
        by blast
      then show ?thesis by (intro exI [of _ p]) simp
    next
      case 2
      with k0' show ?thesis by simp
    qed
  qed
  have 5: "\<forall>k \<in> ?idx ` set (i # ps). \<forall>l \<in> ?idx ` set (i # ps). arr' ! k = arr' ! l \<longrightarrow> k = l"
    unfolding w
  proof (intro ballI impI)
    fix k l assume k: "k \<in> insert ?k0 ?W" and l: "l \<in> insert ?k0 ?W"
      and e: "arr' ! k = arr' ! l"
    have far: "arr' ! m \<noteq> Some (length h)" if "m \<in> ?W" for m
      using new that by fastforce
    show "k = l"
    proof (cases "k \<in> ?W")
      case True
      show ?thesis
      proof (cases "l \<in> ?W")
        case True
        with \<open>k \<in> ?W\<close> inj e show ?thesis by blast
      next
        case False
        with l have "l = ?k0" "?k0 \<notin> ?W" by auto
        with k0' e far [OF True] show ?thesis by simp
      qed
    next
      case False
      with k have kk: "k = ?k0" "?k0 \<notin> ?W" by auto
      show ?thesis
      proof (cases "l \<in> ?W")
        case True
        with kk k0' e far [OF True] show ?thesis by simp
      next
        case False
        with l kk show ?thesis by auto
      qed
    qed
  qed
  from 1 2 3 4 5 show ?case by blast
qed

lemma slot_in_array:
  assumes "x < nc" "y < nr" "nc \<le> (nr::nat)"
  shows "x * nc + y < nr * nc"
proof -
  have "Suc x \<le> nc" using assms(1) by simp
  have "x * nc + y < x * nc + nr" using assms(2) by simp
  also have "\<dots> \<le> x * nr + nr" using assms(3) by (simp add: mult_le_mono2)
  also have "\<dots> = Suc x * nr" by simp
  also have "\<dots> \<le> nc * nr" using \<open>Suc x \<le> nc\<close> by (rule mult_le_mono1)
  finally show ?thesis by (simp add: mult.commute)
qed

text \<open>
  With at least as many rows as columns \<open>body_init\<close> returns a well-formed body of
  the dimensions asked for. Its cells are new (the heap it started from is a prefix
  of the heap it leaves, and every address of the body lies past that prefix) and
  all of them are dead. So the hypothesis \<open>body_ok\<close> of the theorems of this theory
  holds of every body the program makes this way, and two bodies made one after
  the other share no cell.
\<close>

theorem body_init_ok:
  assumes "ncols \<le> nrows"
  shows "\<exists>b. body_init nrows ncols h =
               Inr (b, h @ replicate (ncols * nrows) \<lparr>alive = False\<rparr>) \<and>
             rows b = nrows \<and> cols b = ncols \<and>
             body_ok (h @ replicate (ncols * nrows) \<lparr>alive = False\<rparr>) b \<and>
             (\<forall>p\<in>set (cell_ptrs b). length h \<le> p) \<and>
             alive_positions (h @ replicate (ncols * nrows) \<lparr>alive = False\<rparr>) b = []"
proof -
  let ?ps = "concat (map (\<lambda>x. map (\<lambda>y. (x, y)) [0..<nrows]) [0..<ncols])"
  let ?idx = "\<lambda>i. fst i * ncols + snd i"
  let ?W = "?idx ` set ?ps"
  let ?arr = "replicate (nrows * ncols) (None :: nat option)"
  let ?h = "h @ replicate (ncols * nrows) \<lparr>alive = False\<rparr>"
  have lps: "length ?ps = ncols * nrows"
    by (simp add: length_concat comp_def sum_list_triv)
  have mem: "i \<in> set ?ps \<longleftrightarrow> fst i < ncols \<and> snd i < nrows" for i
    by (cases i) (auto simp: image_iff)
  have rng: "\<forall>i\<in>set ?ps. fst i * ncols + snd i < length ?arr"
    using slot_in_array [OF _ _ assms] mem by simp
  from body_init_loop [OF rng, of h, unfolded lps] obtain arr where
    run: "for_each ?ps (\<lambda>(x, y). body_init_slot ncols x y) (?arr, h) = Inr (arr, ?h)"
    and len0: "length arr = length ?arr"
    and keep: "\<forall>k. k \<notin> ?W \<longrightarrow> arr ! k = ?arr ! k"
    and new: "\<forall>k\<in>?W. \<exists>p. arr ! k = Some p \<and> length h \<le> p \<and> p < length h + ncols * nrows"
    and inj: "\<forall>k\<in>?W. \<forall>l\<in>?W. arr ! k = arr ! l \<longrightarrow> k = l"
    by blast
  from len0 have len: "length arr = nrows * ncols" by simp
  let ?b = "\<lparr>rows = nrows, cols = ncols, cells = arr\<rparr>"
  have init: "body_init nrows ncols h = Inr (?b, ?h)"
    using run by (simp add: body_init_def for_each_nested)
  have slots: "set (slots ?b) = ?W"
    by (simp add: slots_positions positions_def)
  have none: "arr ! k = None" if "k < length arr" "k \<notin> ?W" for k
    using keep that len by simp
  have inW: "k \<in> ?W" if "k < length arr" "arr ! k = Some p" for k p
    using none [OF that(1)] that(2) by auto
  have "distinct (cell_ptrs ?b)"
    unfolding cell_ptrs_def
  proof (rule distinct_ptrs_by_nth)
    fix k l p
    assume "k < length (cells ?b)" "l < length (cells ?b)"
      "cells ?b ! k = Some p" "cells ?b ! l = Some p"
    then have "k \<in> ?W" "l \<in> ?W" "arr ! k = arr ! l"
      using inW by simp_all
    with inj show "k = l" by blast
  qed
  moreover have "list_all (\<lambda>i. i < length (cells ?b) \<and>
      (case cells ?b ! i of None \<Rightarrow> False | Some p \<Rightarrow> p < length ?h)) (slots ?b)"
    unfolding list_all_iff slots
  proof
    fix k assume k: "k \<in> ?W"
    with rng len have "k < length arr" by auto
    moreover from new k obtain p where "arr ! k = Some p" "p < length h + ncols * nrows"
      by blast
    ultimately show "k < length (cells ?b) \<and>
      (case cells ?b ! k of None \<Rightarrow> False | Some p \<Rightarrow> p < length ?h)" by simp
  qed
  moreover have "list_all (\<lambda>i. i \<in> set (slots ?b) \<or> cells ?b ! i = None)
      [0..<length (cells ?b)]"
    unfolding list_all_iff slots
  proof
    fix k assume "k \<in> set [0..<length (cells ?b)]"
    then have k: "k < length arr" by simp
    show "k \<in> ?W \<or> cells ?b ! k = None"
    proof (cases "k \<in> ?W")
      case True
      then show ?thesis ..
    next
      case False
      from none [OF k False] show ?thesis by simp
    qed
  qed
  ultimately have ok: "body_ok ?h ?b"
    using len by (simp add: body_ok_def)
  have ptr: "length h \<le> p" if "p \<in> set (cell_ptrs ?b)" for p
  proof -
    from that obtain k where k: "k < length arr" "arr ! k = Some p"
      by (auto simp: cell_ptrs_def in_set_conv_nth split: option.splits)
    from inW [OF k] new obtain q where "arr ! k = Some q" "length h \<le> q" by blast
    with k(2) show ?thesis by simp
  qed
  have "\<not> alive_at ?h ?b (fst i) (snd i)" if "i \<in> set (positions ?b)" for i
  proof -
    from that have xy: "fst i < cols ?b" "snd i < rows ?b"
      using positions_iff [of "fst i" "snd i" ?b] by simp_all
    from body_ok_cell_ptr [OF ok xy] obtain p where
      p: "cell_ptr ?b (fst i * cols ?b + snd i) = Inr p" "p < length ?h" by blast
    from ptr [OF cell_ptr_mem [OF p(1)]] p(2) have "?h ! p = \<lparr>alive = False\<rparr>"
      by (simp add: nth_append)
    with p show ?thesis by (simp add: alive_at_def get_alive_def)
  qed
  then have "alive_positions ?h ?b = []"
    by (simp add: alive_positions_def)
  with init ok ptr show ?thesis
    by (intro exI [of _ ?b]) simp
qed

lemma body_init_loop_overflow:
  assumes "\<exists>i\<in>set ps. length arr \<le> fst i * nc + snd i"
  shows "for_each ps (\<lambda>(x, y). body_init_slot nc x y) (arr, h) = Inl IndexOutOfRange"
  using assms
proof (induction ps arbitrary: arr h)
  case Nil
  then show ?case by simp
next
  case (Cons i ps)
  show ?case
  proof (cases "fst i * nc + snd i < length arr")
    case True
    with Cons.prems have "\<exists>j\<in>set ps.
        length (arr[fst i * nc + snd i := Some (length h)]) \<le> fst j * nc + snd j"
      by auto
    from Cons.IH [OF this] True show ?thesis
      by (simp add: body_init_slot_def cell_init_def case_prod_unfold)
  next
    case False
    then show ?thesis
      by (simp add: body_init_slot_def case_prod_unfold)
  qed
qed

text \<open>
  With fewer rows than columns (and at least one row) the last column does not fit
  the \<open>rows * cols\<close> slots that were allocated: \<open>body_init\<close> writes past the array.
\<close>

theorem body_init_overflow:
  assumes "0 < nrows" "nrows < ncols"
  shows "body_init nrows ncols h = Inl IndexOutOfRange"
proof -
  let ?ps = "concat (map (\<lambda>x. map (\<lambda>y. (x, y)) [0..<nrows]) [0..<ncols])"
  let ?arr = "replicate (nrows * ncols) (None :: nat option)"
  from assms have "(ncols - 1, nrows - 1) \<in> set ?ps" by (auto simp: image_iff)
  moreover have "nrows \<le> ncols - 1" using assms by simp
  then have "nrows * ncols \<le> (ncols - 1) * ncols" by (rule mult_le_mono1)
  then have "nrows * ncols \<le> (ncols - 1) * ncols + (nrows - 1)" by (rule trans_le_add1)
  then have "length ?arr \<le> fst (ncols - 1, nrows - 1) * ncols + snd (ncols - 1, nrows - 1)"
    by (simp only: length_replicate fst_conv snd_conv)
  ultimately have "\<exists>i\<in>set ?ps. length ?arr \<le> fst i * ncols + snd i" by blast
  from body_init_loop_overflow [OF this] show ?thesis
    by (simp add: body_init_def for_each_nested)
qed

section \<open>Seeding at random on square bodies\<close>

lemma population_square:
  assumes ok: "body_ok h b" and sq: "rows b = cols b"
  shows "population h b = length (alive_positions h b)"
proof -
  have "filter (\<lambda>i. slot_ptr b (fst i) (snd i) < length h \<and>
                    alive (h ! slot_ptr b (fst i) (snd i))) (positions b) =
        filter (\<lambda>i. alive_at h b (fst i) (snd i)) (positions b)"
  proof (rule filter_cong [OF refl])
    fix i assume "i \<in> set (positions b)"
    then have xy: "fst i < cols b" "snd i < rows b"
      using positions_iff [of "fst i" "snd i" b] by simp_all
    from body_ok_cell_ptr [OF ok xy] obtain p where
      p: "cell_ptr b (fst i * cols b + snd i) = Inr p" "p < length h" by blast
    then show "(slot_ptr b (fst i) (snd i) < length h \<and>
                alive (h ! slot_ptr b (fst i) (snd i))) = alive_at h b (fst i) (snd i)"
      by (simp add: slot_ptr_def alive_at_def get_alive_def)
  qed
  then show ?thesis
    by (simp add: population_def alive_positions_def square_cell_ptrs [OF ok sq]
        filter_map comp_def)
qed

lemma random_loop:
  assumes ok: "body_ok g b" and ps: "\<forall>i\<in>set ps. fst i < cols b \<and> snd i < rows b"
  shows "for_each ps (\<lambda>(x, y). random_cell m rnd b x y) (g, pop, k) =
         Inr (fold (store_draw m rnd b) (zip ps [k..<k + length ps]) g,
              pop + int (length (filter (draw m rnd) [k..<k + length ps])),
              k + length ps)"
  using ok ps
proof (induction ps arbitrary: g pop k)
  case Nil
  then show ?case by simp
next
  case (Cons i ps)
  obtain x y where i: "i = (x, y)" by (cases i)
  from Cons.prems(2) i have xy: "x < cols b" "y < rows b" by simp_all
  from body_ok_cell_ptr [OF Cons.prems(1) xy] obtain p where
    p: "cell_ptr b (x * cols b + y) = Inr p" "p < length g" by blast
  then have sp: "slot_ptr b x y = p" by (simp add: slot_ptr_def)
  let ?g1 = "store_draw m rnd b (i, k) g"
  have step: "random_cell m rnd b x y (g, pop, k) =
              Inr (?g1, pop + of_bool (draw m rnd k), Suc k)"
    using p sp
    by (simp add: random_cell_def set_alive_def get_alive_def store_draw_def i cell_update
        draw_def)
  have ok1: "body_ok ?g1 b"
    by (rule body_ok_length [OF Cons.prems(1)]) (simp add: store_draw_def)
  from Cons.prems(2) have rest: "\<forall>i\<in>set ps. fst i < cols b \<and> snd i < rows b" by simp
  have upt: "[k..<k + length (i # ps)] = k # [Suc k..<Suc k + length ps]"
    by (subst upt_rec) simp
  show ?case
    unfolding upt using Cons.IH [OF ok1 rest, of "pop + of_bool (draw m rnd k)" "Suc k"] step
    by (simp add: i)
qed

lemma fold_draw_length: "length (fold (store_draw m rnd b) zs g) = length g"
  by (induction zs arbitrary: g) (simp_all add: store_draw_def)

lemma fold_draw_outside:
  assumes "\<forall>z\<in>set zs. slot_ptr b (fst (fst z)) (snd (fst z)) \<noteq> p"
  shows "fold (store_draw m rnd b) zs g ! p = g ! p"
  using assms by (induction zs arbitrary: g) (simp_all add: store_draw_def)

lemma fold_draw_nth:
  assumes "distinct (map (\<lambda>i. slot_ptr b (fst i) (snd i)) ps)" "n < length ps"
    "length ks = length ps"
    "slot_ptr b (fst (ps ! n)) (snd (ps ! n)) < length g"
  shows "fold (store_draw m rnd b) (zip ps ks) g ! slot_ptr b (fst (ps ! n)) (snd (ps ! n)) =
         \<lparr>alive = draw m rnd (ks ! n)\<rparr>"
  using assms
proof (induction ps arbitrary: g ks n)
  case Nil
  then show ?case by simp
next
  case (Cons i ps)
  let ?key = "\<lambda>i. slot_ptr b (fst i) (snd i)"
  from Cons.prems(3) obtain k ks' where ks: "ks = k # ks'" "length ks' = length ps"
    by (cases ks) auto
  let ?g1 = "store_draw m rnd b (i, k) g"
  have unfold: "fold (store_draw m rnd b) (zip (i # ps) ks) g =
                fold (store_draw m rnd b) (zip ps ks') ?g1"
    by (simp add: ks)
  show ?case
  proof (cases n)
    case 0
    have "\<forall>z\<in>set (zip ps ks'). ?key (fst z) \<noteq> ?key i"
    proof
      fix z assume "z \<in> set (zip ps ks')"
      then have "(fst z, snd z) \<in> set (zip ps ks')" by simp
      then have "fst z \<in> set ps" by (rule set_zip_leftD)
      then have "?key (fst z) \<in> ?key ` set ps" by (rule imageI)
      moreover from Cons.prems(1) have "?key i \<notin> ?key ` set ps" by simp
      ultimately show "?key (fst z) \<noteq> ?key i" by metis
    qed
    from fold_draw_outside [OF this] have
      "fold (store_draw m rnd b) (zip ps ks') ?g1 ! ?key i = ?g1 ! ?key i" .
    also have "\<dots> = \<lparr>alive = draw m rnd k\<rparr>"
      using Cons.prems(4) 0 by (simp add: store_draw_def)
    finally show ?thesis unfolding unfold using 0 ks by simp
  next
    case (Suc n')
    from Cons.prems Suc have
      "distinct (map ?key ps)" "n' < length ps"
      "?key (ps ! n') < length ?g1"
      by (simp_all add: store_draw_def)
    from Cons.IH [OF this(1,2) ks(2) this(3)] Suc ks show ?thesis
      unfolding unfold by simp
  qed
qed

lemma region_iff:
  "(x, y) \<in> set (region b) \<longleftrightarrow>
     cols b div 4 \<le> x \<and> x < 3 * cols b div 4 \<and> rows b div 4 \<le> y \<and> y < 3 * rows b div 4"
  by (auto simp: region_def image_iff)

lemma region_positions: "i \<in> set (region b) \<Longrightarrow> i \<in> set (positions b)"
proof -
  assume "i \<in> set (region b)"
  then have "(fst i, snd i) \<in> set (region b)" by simp
  then have "fst i < 3 * cols b div 4" "snd i < 3 * rows b div 4"
    unfolding region_iff by simp_all
  then have "fst i < cols b" "snd i < rows b" by arith+
  then have "(fst i, snd i) \<in> set (positions b)" unfolding positions_iff by simp
  then show ?thesis by simp
qed

lemma distinct_pairs: "distinct xs \<Longrightarrow> distinct ys \<Longrightarrow>
    distinct (concat (map (\<lambda>x. map (\<lambda>y. (x, y)) ys) xs))"
  by (induction xs) (auto simp: distinct_map inj_on_def)

lemma distinct_region: "distinct (region b)"
  unfolding region_def by (rule distinct_pairs) simp_all

lemma distinct_positions: "distinct (positions b)"
  unfolding positions_def by (rule distinct_pairs) simp_all

lemma filter_upt_range: "c \<le> n \<Longrightarrow> filter (\<lambda>y. a \<le> y \<and> y < c) [0..<n] = [a..<c]"
proof (induction n arbitrary: c)
  case 0
  then show ?case by simp
next
  case (Suc n)
  show ?case
  proof (cases "c \<le> n")
    case True
    with Suc.IH [OF True] show ?thesis by simp
  next
    case False
    with Suc.prems have c: "c = Suc n" by simp
    have "filter (\<lambda>y. a \<le> y \<and> y < Suc n) [0..<n] = filter (\<lambda>y. a \<le> y \<and> y < n) [0..<n]"
      by (rule filter_cong) auto
    also have "\<dots> = [a..<n]" by (rule Suc.IH [OF le_refl])
    finally show ?thesis by (simp add: c)
  qed
qed

lemma concat_map_if:
  "concat (map (\<lambda>x. if P x then f x else []) xs) = concat (map f (filter P xs))"
  by (induction xs) simp_all

lemma region_filter:
  "region b = filter (\<lambda>i. (fst i, snd i) \<in> set (region b)) (positions b)"
proof -
  define inx where "inx x \<longleftrightarrow> cols b div 4 \<le> x \<and> x < 3 * cols b div 4" for x
  define iny where "iny y \<longleftrightarrow> rows b div 4 \<le> y \<and> y < 3 * rows b div 4" for y
  have c: "3 * cols b div 4 \<le> cols b" and r: "3 * rows b div 4 \<le> rows b" by arith+
  have fx: "filter inx [0..<cols b] = [cols b div 4..<3 * cols b div 4]"
    using filter_upt_range [OF c, of "cols b div 4"] by (simp add: inx_def [abs_def])
  have fy: "filter iny [0..<rows b] = [rows b div 4..<3 * rows b div 4]"
    using filter_upt_range [OF r, of "rows b div 4"] by (simp add: iny_def [abs_def])
  have row: "filter (\<lambda>i. inx (fst i) \<and> iny (snd i)) (map (\<lambda>y. (x, y)) [0..<rows b]) =
             (if inx x then map (\<lambda>y. (x, y)) (filter iny [0..<rows b]) else [])" for x
    by (simp add: filter_map comp_def)
  have "filter (\<lambda>i. inx (fst i) \<and> iny (snd i)) (positions b) =
        concat (map (\<lambda>x. if inx x then map (\<lambda>y. (x, y)) (filter iny [0..<rows b]) else [])
                  [0..<cols b])"
    unfolding positions_def filter_concat map_map comp_def row ..
  also have "\<dots> = region b"
    unfolding concat_map_if fx fy region_def ..
  finally have "region b = filter (\<lambda>i. inx (fst i) \<and> iny (snd i)) (positions b)" by simp
  then show ?thesis
    unfolding region_iff inx_def iny_def by simp
qed

lemma filter_by_index:
  assumes "\<forall>n<length xs. A (xs ! n) = D (ks ! n)" "length ks = length xs"
  shows "filter A xs = map fst (filter (\<lambda>z. D (snd z)) (zip xs ks))"
  using assms
proof (induction xs arbitrary: ks)
  case Nil
  then show ?case by simp
next
  case (Cons x xs)
  from Cons.prems(2) obtain k ks' where ks: "ks = k # ks'" "length ks' = length xs"
    by (cases ks) auto
  from Cons.prems(1) ks have "\<forall>n<length xs. A (xs ! n) = D (ks' ! n)" by auto
  from Cons.IH [OF this ks(2)] Cons.prems(1) [rule_format, of 0] ks show ?case by simp
qed

lemma length_filter_zip_snd:
  "length ks = length xs \<Longrightarrow>
   length (filter (\<lambda>z. D (snd z)) (zip xs ks)) = length (filter D ks)"
proof (induction xs arbitrary: ks)
  case Nil
  then show ?case by simp
next
  case (Cons x xs)
  then obtain k ks' where "ks = k # ks'" "length ks' = length xs" by (cases ks) auto
  with Cons.IH [of ks'] show ?case by simp
qed

text \<open>
  On a square body with no live cell \<open>random_mode\<close> returns the body; the live
  positions afterwards are the positions of the sub-region whose draw came out at
  or below the percentage, every position outside the sub-region is dead, and the
  count has grown by the number of live cells.
\<close>

theorem random_mode_square:
  assumes ok: "body_ok h b" and sq: "rows b = cols b" and fresh: "alive_positions h b = []"
  shows "\<exists>h' pop.
           random_mode m rnd b (h, q) = Inr (Some b, h', pop) \<and>
           alive_positions h' b =
             map fst (filter (\<lambda>z. draw m rnd (snd z)) (zip (region b) [0..<length (region b)])) \<and>
           pop = q + int (length (filter (draw m rnd) [0..<length (region b)])) \<and>
           pop = q + int (population h' b)"
proof -
  let ?ps = "region b"
  let ?ks = "[0..<length ?ps]"
  let ?key = "\<lambda>i. slot_ptr b (fst i) (snd i)"
  let ?h = "fold (store_draw m rnd b) (zip ?ps ?ks) h"
  let ?pop = "q + int (length (filter (draw m rnd) ?ks))"
  have pos: "fst i < cols b \<and> snd i < rows b" if "i \<in> set (positions b)" for i
    using that positions_iff [of "fst i" "snd i" b] by simp
  have ps: "\<forall>i\<in>set ?ps. fst i < cols b \<and> snd i < rows b"
    using region_positions pos by blast
  have run: "random_mode m rnd b (h, q) = Inr (Some b, ?h, ?pop)"
    using random_loop [OF ok ps, of m rnd q 0]
    by (simp add: random_mode_def region_def [symmetric] for_each_nested [of _ _ "random_cell m rnd b", unfolded region_def [symmetric]])
  have len: "length ?h = length h" by (rule fold_draw_length)
  have ok': "body_ok ?h b" by (rule body_ok_length [OF ok len])
  have inj: "i = j" if "i \<in> set (positions b)" "j \<in> set (positions b)" "?key i = ?key j" for i j
    using square_slot_ptr_inj [OF ok sq, of "fst i" "snd i" "fst j" "snd j"] pos that
    by (simp add: prod_eq_iff)
  have read: "alive_at g b (fst i) (snd i) = alive (g ! ?key i) \<and> ?key i < length h"
    if "i \<in> set (positions b)" "length g = length h" for i g
  proof -
    from pos [OF that(1)] have xy: "fst i < cols b" "snd i < rows b" by simp_all
    from body_ok_cell_ptr [OF ok xy] obtain p where
      "cell_ptr b (fst i * cols b + snd i) = Inr p" "p < length h" by blast
    with that(2) show ?thesis by (simp add: alive_at_def get_alive_def slot_ptr_def)
  qed
  have dkey: "distinct (map ?key ?ps)"
    unfolding distinct_map
  proof
    show "distinct ?ps" by (rule distinct_region)
    show "inj_on ?key (set ?ps)"
      by (rule inj_onI) (rule inj, auto intro: region_positions)
  qed
  have inside: "alive_at ?h b (fst (?ps ! n)) (snd (?ps ! n)) = draw m rnd (?ks ! n)"
    if n: "n < length ?ps" for n
  proof -
    from n have mem: "?ps ! n \<in> set (positions b)" by (intro region_positions nth_mem)
    from read [OF mem len] read [OF mem refl] have
      r: "alive_at ?h b (fst (?ps ! n)) (snd (?ps ! n)) = alive (?h ! ?key (?ps ! n))"
      and l: "?key (?ps ! n) < length h" by simp_all
    from fold_draw_nth [OF dkey n _ l, of ?ks m rnd] r show ?thesis by simp
  qed
  have outside: "\<not> alive_at ?h b (fst i) (snd i)"
    if i: "i \<in> set (positions b)" "i \<notin> set ?ps" for i
  proof -
    have "\<forall>z\<in>set (zip ?ps ?ks). ?key (fst z) \<noteq> ?key i"
    proof
      fix z assume "z \<in> set (zip ?ps ?ks)"
      then have "(fst z, snd z) \<in> set (zip ?ps ?ks)" by simp
      then have z: "fst z \<in> set ?ps" by (rule set_zip_leftD)
      with i(2) have "fst z \<noteq> i" by auto
      with inj [OF region_positions [OF z] i(1)] show "?key (fst z) \<noteq> ?key i" by auto
    qed
    from fold_draw_outside [OF this] have "?h ! ?key i = h ! ?key i" .
    with read [OF i(1) len] read [OF i(1) refl] have
      "alive_at ?h b (fst i) (snd i) = alive_at h b (fst i) (snd i)" by simp
    moreover from fresh i(1) have "\<not> alive_at h b (fst i) (snd i)"
      by (simp add: alive_positions_def filter_empty_conv)
    ultimately show ?thesis by simp
  qed
  have "alive_positions ?h b =
        filter (\<lambda>i. alive_at ?h b (fst i) (snd i))
          (filter (\<lambda>i. (fst i, snd i) \<in> set ?ps) (positions b))"
    unfolding alive_positions_def filter_filter
    by (rule filter_cong [OF refl]) (use outside in auto)
  also have "\<dots> = filter (\<lambda>i. alive_at ?h b (fst i) (snd i)) ?ps"
    using region_filter [of b] by simp
  also have "\<dots> = map fst (filter (\<lambda>z. draw m rnd (snd z)) (zip ?ps ?ks))"
    by (rule filter_by_index) (use inside in simp_all)
  finally have cells: "alive_positions ?h b =
      map fst (filter (\<lambda>z. draw m rnd (snd z)) (zip ?ps ?ks))" .
  have "population ?h b = length (filter (draw m rnd) ?ks)"
    unfolding population_square [OF ok' sq] cells
    by (simp add: length_filter_zip_snd)
  with run cells show ?thesis by simp
qed

lemma length_region:
  "length (region b) =
   (3 * cols b div 4 - cols b div 4) * (3 * rows b div 4 - rows b div 4)"
  by (simp add: region_def length_concat comp_def sum_list_triv)

text \<open>With the percentage 0 nothing is alive and the count does not move.\<close>

theorem random_mode_probability_0:
  assumes ok: "body_ok h b" and sq: "rows b = cols b" and fresh: "alive_positions h b = []"
    and p: "alive_prob m \<le> 0"
  shows "\<exists>h'. random_mode m rnd b (h, q) = Inr (Some b, h', q) \<and>
              alive_positions h' b = [] \<and> population h' b = 0"
proof -
  from p have d: "draw m rnd = (\<lambda>k. False)" by (auto simp: draw_def fun_eq_iff)
  from random_mode_square [OF ok sq fresh, of m rnd q] show ?thesis
    unfolding d by auto
qed

text \<open>
  With the percentage 100 the live positions are the sub-region, and the count
  grows by its area.
\<close>

theorem random_mode_probability_100:
  assumes ok: "body_ok h b" and sq: "rows b = cols b" and fresh: "alive_positions h b = []"
    and p: "100 \<le> alive_prob m"
  shows "\<exists>h'. random_mode m rnd b (h, q) = Inr (Some b, h', q + int (length (region b))) \<and>
              alive_positions h' b = region b \<and>
              population h' b = length (region b) \<and>
              length (region b) =
                (3 * cols b div 4 - cols b div 4) * (3 * rows b div 4 - rows b div 4)"
proof -
  have "int (rnd k mod 100 + 1) \<le> 100" for k
  proof -
    have "rnd k mod 100 < 100" by simp
    then show ?thesis by linarith
  qed
  with p have d: "draw m rnd = (\<lambda>k. True)"
    by (auto simp: draw_def fun_eq_iff intro: order_trans)
  from random_mode_square [OF ok sq fresh, of m rnd q, unfolded d] obtain h' pop where
    run: "random_mode m rnd b (h, q) = Inr (Some b, h', pop)"
    and cells: "alive_positions h' b =
      map fst (filter (\<lambda>z. True) (zip (region b) [0..<length (region b)]))"
    and pop: "pop = q + int (length (filter (\<lambda>k. True) [0..<length (region b)]))"
    and cnt: "pop = q + int (population h' b)"
    by blast
  from cells have 1: "alive_positions h' b = region b" by (simp add: map_fst_zip)
  from pop have 2: "pop = q + int (length (region b))" by simp
  with cnt have 3: "population h' b = length (region b)" by simp
  from run 1 2 3 length_region [of b] show ?thesis by blast
qed

section \<open>Pattern files with offsets that are not negative\<close>

lemma getline_any_header:
  assumes "CHR 0x0A \<notin> set hdr"
  shows "getline (hdr @ CHR 0x0A # r) = Some (hdr @ [CHR 0x0A], r)"
proof -
  from assms have nl: "\<forall>c\<in>set hdr. c \<noteq> CHR 0x0A" by auto
  have 1: "dropWhile (\<lambda>c. c \<noteq> CHR 0x0A) (hdr @ CHR 0x0A # r) = CHR 0x0A # r"
    using nl by (simp add: dropWhile_append2)
  have 2: "takeWhile (\<lambda>c. c \<noteq> CHR 0x0A) (hdr @ CHR 0x0A # r) = hdr"
    using nl by (simp add: takeWhile_append2)
  show ?thesis unfolding getline_def 1 2 by simp
qed

text \<open>
  For a file that opens, whose first line is anything and whose further lines are
  \<open>"<dx>,<dy>"\<close> with decimal numbers that are not negative and with every target
  \<open>(dx + cols div 2, dy + rows div 2)\<close> inside a well-formed body, \<open>pattern_mode\<close>
  returns the body with the cell at each target set alive, and has added 1 to the
  count for every line.
\<close>

theorem pattern_mode_places_cells:
  assumes ok: "body_ok g c"
    and hdr: "CHR 0x0A \<notin> set hdr"
    and inside: "list_all (\<lambda>i. fst (pattern_target c i) < cols c \<and>
                              snd (pattern_target c i) < rows c) ps"
  shows "pattern_mode
           (Some (hdr @ CHR 0x0A # concat (map (\<lambda>i. export_line (fst i) (snd i)) ps))) c (g, q) =
         Inr (Some c, fold (place_cell c) ps g, q + int (length ps))"
proof -
  from inside have
    "\<forall>i\<in>set ps. fst (pattern_target c i) < cols c \<and> snd (pattern_target c i) < rows c"
    by (simp add: list_all_iff)
  from place_loop [OF ok this, of q] show ?thesis
    unfolding pattern_mode_def option.case getline_any_header [OF hdr]
    by (simp add: pattern_loop_lines)
qed

section \<open>The count while drawing\<close>

lemma toggle_closed:
  assumes ok: "body_ok h b" and xy: "x < cols b" "y < rows b"
  shows "toggle b (int x) (int y) (h, pop) =
         Inr (h[slot_ptr b x y := \<lparr>alive = \<not> alive (h ! slot_ptr b x y)\<rparr>],
              pop + (if alive (h ! slot_ptr b x y) then - 1 else 1)) \<and>
         slot_ptr b x y < length h \<and> slot_ptr b x y \<in> set (cell_ptrs b)"
proof -
  have i: "nat (int x * int (cols b) + int y) = x * cols b + y"
    by (simp add: nat_add_distrib nat_mult_distrib)
  have nn: "\<not> int x * int (cols b) + int y < 0"
    by (metis of_nat_0_le_iff of_nat_add of_nat_mult not_less)
  from body_ok_cell_ptr [OF ok xy] obtain p where
    p: "cell_ptr b (x * cols b + y) = Inr p" "p < length h" by blast
  then have sp: "slot_ptr b x y = p" by (simp add: slot_ptr_def)
  from p nn show ?thesis
    unfolding sp using cell_ptr_mem [OF p(1)]
    by (simp add: toggle_def i get_alive_def set_alive_def cell_update)
qed

lemma population_update:
  assumes "distinct ps" "p \<in> set ps" "p < length h"
  shows "int (length (filter (\<lambda>q. q < length h \<and> alive (h[p := c] ! q)) ps)) =
         int (length (filter (\<lambda>q. q < length h \<and> alive (h ! q)) ps)) +
           of_bool (alive c) - of_bool (alive (h ! p))"
  using assms(1,2)
proof (induction ps)
  case Nil
  then show ?case by simp
next
  case (Cons q ps)
  show ?case
  proof (cases "q = p")
    case True
    with Cons.prems have np: "p \<notin> set ps" by simp
    have "filter (\<lambda>q. q < length h \<and> alive (h[p := c] ! q)) ps =
          filter (\<lambda>q. q < length h \<and> alive (h ! q)) ps"
    proof (rule filter_cong [OF refl])
      fix x assume "x \<in> set ps"
      with np have "p \<noteq> x" by auto
      then show "(x < length h \<and> alive (h[p := c] ! x)) = (x < length h \<and> alive (h ! x))"
        by simp
    qed
    with True assms(3) show ?thesis by simp
  next
    case False
    with Cons.prems have "distinct ps" "p \<in> set ps" by simp_all
    from Cons.IH [OF this] False show ?thesis by simp
  qed
qed

lemma toggle_population:
  assumes ok: "body_ok h b" and xy: "x < cols b" "y < rows b"
    and pop: "pop = int (population h b)"
    and run: "toggle b (int x) (int y) (h, pop) = Inr (h1, pop1)"
  shows "body_ok h1 b \<and> pop1 = int (population h1 b)"
proof -
  let ?p = "slot_ptr b x y"
  from toggle_closed [OF ok xy, of pop] run have
    h1: "h1 = h[?p := \<lparr>alive = \<not> alive (h ! ?p)\<rparr>]"
    and pop1: "pop1 = pop + (if alive (h ! ?p) then - 1 else 1)"
    and p: "?p < length h" "?p \<in> set (cell_ptrs b)" by simp_all
  from ok have d: "distinct (cell_ptrs b)" by (simp add: body_ok_def)
  have "body_ok h1 b" by (rule body_ok_length [OF ok]) (simp add: h1)
  moreover from population_update [OF d p(2,1), of "\<lparr>alive = \<not> alive (h ! ?p)\<rparr>"] pop pop1
  have "pop1 = int (population h1 b)"
    by (simp add: population_def h1)
  ultimately show ?thesis ..
qed

text \<open>
  Started on a well-formed body with the count equal to its number of live cells,
  and with every click on a position of the body, the loop of \<open>drawing_mode\<close> never
  faults, and whenever it returns (with the body or with \<open>NULL\<close>) the count is the
  number of live cells. The body need not be square: a toggle changes one cell.
\<close>

theorem drawing_loop_population:
  assumes "body_ok h b" "pop = int (population h b)" "clicks_inside m b es"
    and "drawing_loop m b es capturing (h, pop) = Some r"
  shows "\<exists>ret h' pop'. r = Inr (ret, h', pop') \<and> body_ok h' b \<and> pop' = int (population h' b)"
  using assms
proof (induction es arbitrary: h pop capturing)
  case Nil
  then show ?case by simp
next
  case (Cons e es)
  from Cons.prems(3) have m: "0 < width m" "0 < height m" and rest: "clicks_inside m b es"
    by (simp_all add: clicks_inside_def)
  show ?case
  proof (cases e)
    case None
    with Cons.prems Cons.IH [OF Cons.prems(1,2) rest] show ?thesis
      by (auto split: if_splits)
  next
    case (Some ev)
    show ?thesis
    proof (cases ev)
      case (MouseLeft mx my)
      with Cons.prems(3) Some have
        xy: "mx div width m < cols b" "my div height m < rows b"
        by (simp_all add: clicks_inside_def)
      from toggle_closed [OF Cons.prems(1) xy, of pop] obtain h1 pop1 where
        t: "toggle b (int (mx div width m)) (int (my div height m)) (h, pop) = Inr (h1, pop1)"
        by blast
      from toggle_population [OF Cons.prems(1) xy Cons.prems(2) t] have
        1: "body_ok h1 b" "pop1 = int (population h1 b)" by simp_all
      from Cons.prems(4) Some MouseLeft t m have
        "drawing_loop m b es capturing (h1, pop1) = Some r"
        by (simp add: mouse_button_left_def)
      from Cons.IH [OF 1 rest this] show ?thesis .
    qed (use Cons.prems Some Cons.IH [OF Cons.prems(1,2) rest] in auto)
  qed
qed

theorem drawing_mode_population:
  assumes "body_ok h b" "pop = int (population h b)" "clicks_inside m b es"
    and "drawing_mode m b es (h, pop) = Some r"
  shows "\<exists>ret h' pop'. r = Inr (ret, h', pop') \<and> body_ok h' b \<and> pop' = int (population h' b)"
  using assms drawing_loop_population [of h b pop m es True r]
  by (simp add: drawing_mode_def)

section \<open>Toggling on square bodies\<close>

text \<open>
  On a square body a toggle at a position inside the body negates the state read
  at that position and leaves the state read at every other position as it was;
  the count moves by +1 or -1 with the new state, and a second toggle restores
  heap and count.
\<close>

theorem toggle_square:
  assumes ok: "body_ok h b" and sq: "rows b = cols b" and xy: "x < cols b" "y < rows b"
  shows "\<exists>h1 pop1.
           toggle b (int x) (int y) (h, pop) = Inr (h1, pop1) \<and>
           alive_at h1 b x y = (\<not> alive_at h b x y) \<and>
           (\<forall>x' y'. x' < cols b \<and> y' < rows b \<and> (x', y') \<noteq> (x, y) \<longrightarrow>
                    alive_at h1 b x' y' = alive_at h b x' y') \<and>
           pop1 = pop + (if alive_at h1 b x y then 1 else - 1) \<and>
           toggle b (int x) (int y) (h1, pop1) = Inr (h, pop)"
proof -
  let ?p = "slot_ptr b x y"
  let ?h1 = "h[?p := \<lparr>alive = \<not> alive (h ! ?p)\<rparr>]"
  let ?pop1 = "pop + (if alive (h ! ?p) then - 1 else 1)"
  from toggle_closed [OF ok xy, of pop] have
    t1: "toggle b (int x) (int y) (h, pop) = Inr (?h1, ?pop1)" and p: "?p < length h"
    by simp_all
  have len: "length ?h1 = length h" by simp
  have ok1: "body_ok ?h1 b" by (rule body_ok_length [OF ok len])
  have read: "alive_at g b x' y' = alive (g ! slot_ptr b x' y')"
    if "x' < cols b" "y' < rows b" "length g = length h" for g x' y'
  proof -
    from body_ok_cell_ptr [OF ok that(1,2)] obtain q where
      "cell_ptr b (x' * cols b + y') = Inr q" "q < length h" by blast
    with that(3) show ?thesis by (simp add: alive_at_def get_alive_def slot_ptr_def)
  qed
  have here: "alive_at ?h1 b x y = (\<not> alive_at h b x y)"
    using read [OF xy len] read [OF xy refl] p by simp
  have other: "alive_at ?h1 b x' y' = alive_at h b x' y'"
    if "x' < cols b" "y' < rows b" "(x', y') \<noteq> (x, y)" for x' y'
  proof -
    from square_slot_ptr_inj [OF ok sq that(1,2) xy] that(3)
    have "slot_ptr b x' y' \<noteq> ?p" by auto
    with read [OF that(1,2) len] read [OF that(1,2) refl] show ?thesis by simp
  qed
  have undo: "?h1[?p := \<lparr>alive = \<not> alive (?h1 ! ?p)\<rparr>] = h"
  proof -
    from p have "?h1[?p := \<lparr>alive = \<not> alive (?h1 ! ?p)\<rparr>] = h[?p := \<lparr>alive = alive (h ! ?p)\<rparr>]"
      by simp
    also have "\<dots> = h" by (simp add: cell_same)
    finally show ?thesis .
  qed
  from toggle_closed [OF ok1 xy, of ?pop1] p have
    t2: "toggle b (int x) (int y) (?h1, ?pop1) = Inr (h, pop)"
    unfolding undo by simp
  have cnt: "?pop1 = pop + (if alive_at ?h1 b x y then 1 else - 1)"
    using read [OF xy len] p by simp
  from t1 here other cnt t2 show ?thesis
    by (intro exI [of _ ?h1] exI [of _ ?pop1]) simp
qed

end
